theory Spec2Isabelle
  imports Complex_Main "HOL-Library.AList"
begin

section \<open>Errors raised by the Python code\<close>

text \<open>
  Every exception the modelled code can raise is a value. \<open>OutsideInt64\<close> is not a Python
  exception: it marks the inputs on which NumPy would leave the int64 dtype (see
  \<open>np_asarray\<close>), where this development makes no statement.
\<close>

datatype py_error = OverflowError | ValueError | StopIteration | IndexError | OutsideInt64

definition bindE :: "py_error + 'a \<Rightarrow> ('a \<Rightarrow> py_error + 'b) \<Rightarrow> py_error + 'b" where
  "bindE r f = (case r of Inl e \<Rightarrow> Inl e | Inr v \<Rightarrow> f v)"

section \<open>compression.py\<close>

subsection \<open>\<open>array.array("L", ...)\<close>: unsigned items of a fixed width\<close>

text \<open>
  Python integers are \<open>int\<close>; a \<open>bytes\<close> object is the list of its byte values (each in
  \<open>0..255\<close>). The item size \<open>w\<close> of type code \<open>L\<close> (unsigned long) depends on the platform C
  compiler (4 or 8 bytes), so it is a parameter. Items are laid out least significant byte
  first, the native order of the x86 and ARM hosts.
\<close>

definition le_bytes :: "nat \<Rightarrow> int \<Rightarrow> int list" where
  "le_bytes w x = map (\<lambda>i. (x div 256 ^ i) mod 256) [0..<w]"

definition from_le :: "int list \<Rightarrow> int" where
  "from_le bs = foldr (\<lambda>b acc. b + 256 * acc) bs 0"

text \<open>\<open>array.array("L", xs)\<close> raises OverflowError on a negative or too large item.\<close>

definition array_L :: "nat \<Rightarrow> int list \<Rightarrow> py_error + int list" where
  "array_L w xs =
     (if \<forall>x \<in> set xs. 0 \<le> x \<and> x < 256 ^ w then Inr xs else Inl OverflowError)"

definition tobytes :: "nat \<Rightarrow> int list \<Rightarrow> int list" where
  "tobytes w arr = concat (map (le_bytes w) arr)"

function chunks :: "nat \<Rightarrow> 'a list \<Rightarrow> 'a list list" where
  "chunks w bs = (if w = 0 \<or> bs = [] then [] else take w bs # chunks w (drop w bs))"
  by pat_completeness auto
termination
  by (relation "measure (\<lambda>(w, bs). length bs)") auto

declare chunks.simps [simp del]

text \<open>\<open>array.frombytes\<close> raises ValueError unless the length is a multiple of the item size.\<close>

definition frombytes :: "nat \<Rightarrow> int list \<Rightarrow> py_error + int list" where
  "frombytes w bs =
     (if length bs mod w \<noteq> 0 then Inl ValueError else Inr (map from_le (chunks w bs)))"

subsection \<open>StandardPostings\<close>

definition Standard_encode :: "nat \<Rightarrow> int list \<Rightarrow> py_error + int list" where
  "Standard_encode w postings_list = bindE (array_L w postings_list) (\<lambda>a. Inr (tobytes w a))"

definition Standard_decode :: "nat \<Rightarrow> int list \<Rightarrow> py_error + int list" where
  "Standard_decode w encoded_postings_list = frombytes w encoded_postings_list"

subsection \<open>NumPy on lists of Python integers\<close>

text \<open>
  \<open>np.diff\<close> and \<open>np.cumsum\<close> first turn their list argument into an array. A list of
  Python integers that all fit 64 signed bits becomes an int64 array, whose arithmetic wraps
  around; other lists get another dtype, which is outside this model.
\<close>

definition wrap64 :: "int \<Rightarrow> int" where
  "wrap64 x = (x + 2 ^ 63) mod 2 ^ 64 - 2 ^ 63"

definition np_asarray :: "int list \<Rightarrow> py_error + int list" where
  "np_asarray xs =
     (if \<forall>x \<in> set xs. - (2 ^ 63) \<le> x \<and> x < 2 ^ 63 then Inr xs else Inl OutsideInt64)"

fun diff_list :: "int list \<Rightarrow> int list" where
  "diff_list (a # b # xs) = wrap64 (b - a) # diff_list (b # xs)"
| "diff_list _ = []"

definition np_diff :: "int list \<Rightarrow> py_error + int list" where
  "np_diff xs = bindE (np_asarray xs) (\<lambda>a. Inr (diff_list a))"

fun cumsum_from :: "int \<Rightarrow> int list \<Rightarrow> int list" where
  "cumsum_from s [] = []"
| "cumsum_from s (x # xs) = wrap64 (s + x) # cumsum_from (wrap64 (s + x)) xs"

definition np_cumsum :: "int list \<Rightarrow> py_error + int list" where
  "np_cumsum xs = bindE (np_asarray xs) (\<lambda>a. Inr (cumsum_from 0 a))"

subsection \<open>VBEPostings\<close>

text \<open>
  The loop of \<open>vb_encode_number\<close>: \<open>acc\<close> is the list \<open>bytes\<close>, to whose front each digit is
  inserted. Python's \<open>%\<close> and \<open>//\<close> round towards minus infinity, as \<open>mod\<close> and \<open>div\<close> on
  \<open>int\<close> do.
\<close>

function vb_digits :: "int \<Rightarrow> int list \<Rightarrow> int list" where
  "vb_digits number acc =
     (if number < 128 then (number mod 128) # acc
      else vb_digits (number div 128) ((number mod 128) # acc))"
  by pat_completeness auto
termination
  by (relation "measure (\<lambda>(number, acc). nat number)") auto

declare vb_digits.simps [simp del]

definition vb_encode_number :: "int \<Rightarrow> int list" where
  "vb_encode_number number =
     (let bytes = vb_digits number [] in butlast bytes @ [last bytes + 128])"

definition vb_encode :: "nat \<Rightarrow> int list \<Rightarrow> py_error + int list" where
  "vb_encode w list_of_numbers =
     (let bytestream = foldl (\<lambda>bs n. bs @ vb_encode_number n) [] list_of_numbers
      in bindE (array_L w bytestream) (\<lambda>a. Inr (tobytes w a)))"

definition VBE_encode :: "nat \<Rightarrow> int list \<Rightarrow> py_error + int list" where
  "VBE_encode w postings_list = bindE (np_diff (0 # postings_list)) (vb_encode w)"

definition VBE_encode_tf :: "nat \<Rightarrow> int list \<Rightarrow> py_error + int list" where
  "VBE_encode_tf w tf_list = vb_encode w tf_list"

text \<open>The loop of \<open>vb_decode\<close>, with the pair \<open>(numbers, n)\<close> as its state.\<close>

definition vb_decode_step :: "int list \<times> int \<Rightarrow> int \<Rightarrow> int list \<times> int" where
  "vb_decode_step st byte =
     (case st of (numbers, n) \<Rightarrow>
        if byte < 128 then (numbers, 128 * n + byte)
        else (numbers @ [128 * n + byte - 128], 0))"

definition vb_decode :: "int list \<Rightarrow> int list" where
  "vb_decode encoded_bytestream = fst (foldl vb_decode_step ([], 0) encoded_bytestream)"

definition VBE_decode :: "nat \<Rightarrow> int list \<Rightarrow> py_error + int list" where
  "VBE_decode w encoded_postings_list =
     bindE (frombytes w encoded_postings_list) (\<lambda>a. np_cumsum (vb_decode a))"

text \<open>\<open>decode_tf\<close> hands the \<open>bytes\<close> object itself to \<open>vb_decode\<close>, which iterates over its
  single bytes.\<close>

definition VBE_decode_tf :: "int list \<Rightarrow> int list" where
  "VBE_decode_tf encoded_tf_list = vb_decode encoded_tf_list"

text \<open>The round trips \<open>Postings.decode(Postings.encode(L))\<close> and
  \<open>Postings.decode_tf(Postings.encode_tf(L))\<close> of the module's self-test.\<close>

definition Standard_roundtrip :: "nat \<Rightarrow> int list \<Rightarrow> py_error + int list" where
  "Standard_roundtrip w L = bindE (Standard_encode w L) (Standard_decode w)"

definition VBE_roundtrip :: "nat \<Rightarrow> int list \<Rightarrow> py_error + int list" where
  "VBE_roundtrip w L = bindE (VBE_encode w L) (VBE_decode w)"

definition VBE_roundtrip_tf :: "nat \<Rightarrow> int list \<Rightarrow> py_error + int list" where
  "VBE_roundtrip_tf w L = bindE (VBE_encode_tf w L) (\<lambda>bs. Inr (VBE_decode_tf bs))"

subsection \<open>Auxiliary functions of the codec proofs\<close>

text \<open>
  \<open>horner n ds\<close> is the accumulator of \<open>vb_decode\<close> after reading the digits \<open>ds\<close> from the
  accumulator \<open>n\<close>; \<open>stretched\<close> is the same accumulator when every digit is followed by the
  \<open>w - 1\<close> zero bytes of its array item, and \<open>misread w x\<close> is the number that the byte-wise
  decoder then reads where \<open>x\<close> was encoded.
\<close>

definition horner :: "int \<Rightarrow> int list \<Rightarrow> int" where
  "horner n ds = foldl (\<lambda>a b. 128 * a + b) n ds"

definition stretched :: "nat \<Rightarrow> int \<Rightarrow> int list \<Rightarrow> int" where
  "stretched w n ds = foldl (\<lambda>a d. (128 * a + d) * 128 ^ (w - 1)) n ds"

definition misread :: "nat \<Rightarrow> int \<Rightarrow> int" where
  "misread w x = (let ds = vb_digits x [] in 128 * stretched w 0 (butlast ds) + last ds)"

section \<open>bsbi.py\<close>

subsection \<open>Dictionaries, and the index writer as the sequence of its \<open>append\<close> calls\<close>

text \<open>
  A Python \<open>dict\<close> is an association list with distinct keys in insertion order: a new key
  goes to the end, an existing key keeps its place (\<open>AList.update\<close>).

  \<open>InvertedIndexWriter\<close> and \<open>InvertedIndexReader\<close> live in \<open>index.py\<close>. What \<open>bsbi.py\<close>
  does to a writer is the sequence of its calls \<open>append(term_id, postings_list, tf_list)\<close>,
  so a writer is the list of the triples appended so far; what it takes from a reader in a
  merge is the finite sequence of triples that iterating over the reader yields.
\<close>

type_synonym ('k, 'v) dict = "('k \<times> 'v) list"

definition dict_get :: "('k, 'v) dict \<Rightarrow> 'k \<Rightarrow> 'v \<Rightarrow> 'v" where
  "dict_get d k dflt = (case map_of d k of None \<Rightarrow> dflt | Some v \<Rightarrow> v)"

definition dict_keys :: "('k, 'v) dict \<Rightarrow> 'k list" where
  "dict_keys d = map fst d"

type_synonym triple = "int \<times> int list \<times> int list"

type_synonym writer = "triple list"

subsection \<open>\<open>BSBIIndex.write_to_index\<close>\<close>

text \<open>The body of the first loop, for one pair \<open>(term_id, doc_id)\<close>.\<close>

definition count_pair ::
  "(int, (int, int) dict) dict \<Rightarrow> int \<times> int \<Rightarrow> (int, (int, int) dict) dict" where
  "count_pair term_dict p =
     (case p of (term_id, doc_id) \<Rightarrow>
        let term_dict1 = (if term_id \<notin> set (dict_keys term_dict)
                          then AList.update term_id [] term_dict else term_dict);
            inner = dict_get term_dict1 term_id []
        in AList.update term_id (AList.update doc_id (dict_get inner doc_id 0 + 1) inner)
             term_dict1)"

text \<open>The body of the second loop, for one key of \<open>term_dict\<close>.\<close>

definition append_term :: "(int, (int, int) dict) dict \<Rightarrow> writer \<Rightarrow> int \<Rightarrow> writer" where
  "append_term term_dict index term_id =
     (let inner = dict_get term_dict term_id [];
          postings_list = sort (dict_keys inner);
          tf_list = map (\<lambda>doc_id. dict_get inner doc_id 0) postings_list
      in index @ [(term_id, postings_list, tf_list)])"

definition write_to_index :: "(int \<times> int) list \<Rightarrow> writer \<Rightarrow> writer" where
  "write_to_index td_pairs index =
     (let term_dict = foldl count_pair [] td_pairs
      in foldl (append_term term_dict) index (sort (dict_keys term_dict)))"

text \<open>
  The inverted block in the words of the specification: every distinct termId once, in
  ascending order, with its ascending duplicate-free docIds and, for each docId, the number
  of occurrences of the pair in the input.
\<close>

definition spec_postings :: "(int \<times> int) list \<Rightarrow> int \<Rightarrow> int list" where
  "spec_postings td_pairs t = sort (remdups (map snd (filter (\<lambda>p. fst p = t) td_pairs)))"

definition spec_inverted :: "(int \<times> int) list \<Rightarrow> triple list" where
  "spec_inverted td_pairs =
     map (\<lambda>t. (t, spec_postings td_pairs t,
               map (\<lambda>d. int (count_list td_pairs (t, d))) (spec_postings td_pairs t)))
       (sort (remdups (map fst td_pairs)))"

subsection \<open>\<open>BSBIIndex.merge_index\<close>\<close>

text \<open>
  \<open>heapq.merge(*indices, key=lambda x: x[0])\<close> keeps one heap entry \<open>[key, order, value]\<close> per
  iterable that is not exhausted, \<open>order\<close> being the position of the iterable, and always
  yields the value of the least entry: the least key, and among equal keys the earliest
  iterable. \<open>least_head i its\<close> is that least \<open>(key, order)\<close>, the iterables \<open>its\<close> being
  numbered from \<open>i\<close>.
\<close>

fun least_head :: "nat \<Rightarrow> triple list list \<Rightarrow> (int \<times> nat) option" where
  "least_head i [] = None"
| "least_head i ([] # its) = least_head (Suc i) its"
| "least_head i ((x # it) # its) =
     (case least_head (Suc i) its of
        None \<Rightarrow> Some (fst x, i)
      | Some (k, j) \<Rightarrow> if fst x \<le> k then Some (fst x, i) else Some (k, j))"

lemma least_head_Some:
  "least_head i its = Some (k, j) \<Longrightarrow> i \<le> j \<and> j - i < length its \<and> its ! (j - i) \<noteq> []"
proof (induction i its arbitrary: k j rule: least_head.induct)
  case (1 i)
  then show ?case by simp
next
  case (2 i its)
  then have "Suc i \<le> j \<and> j - Suc i < length its \<and> its ! (j - Suc i) \<noteq> []" by simp
  then show ?case by (auto simp: Suc_diff_le nth_Cons')
next
  case (3 i x it its)
  show ?case
  proof (cases "(k, j) = (fst x, i)")
    case True
    then show ?thesis by simp
  next
    case False
    with "3.prems" have "least_head (Suc i) its = Some (k, j)"
      by (auto split: option.splits if_splits)
    then have "Suc i \<le> j \<and> j - Suc i < length its \<and> its ! (j - Suc i) \<noteq> []"
      by (rule "3.IH")
    then show ?thesis by (auto simp: Suc_diff_le nth_Cons')
  qed
qed

lemma sum_list_shrink:
  fixes its :: "'a list list"
  assumes "j < length its" "its ! j \<noteq> []"
  shows "sum_list (map length (its[j := tl (its ! j)])) < sum_list (map length its)"
  using assms
proof (induction its arbitrary: j)
  case Nil
  then show ?case by simp
next
  case (Cons a its)
  show ?case
  proof (cases j)
    case 0
    then show ?thesis using Cons.prems by (cases a) simp_all
  next
    case (Suc n)
    then show ?thesis using Cons.prems Cons.IH[of n] by simp
  qed
qed

function heapq_merge :: "triple list list \<Rightarrow> triple list" where
  "heapq_merge its =
     (case least_head 0 its of
        None \<Rightarrow> []
      | Some (k, j) \<Rightarrow> hd (its ! j) # heapq_merge (its[j := tl (its ! j)]))"
  by pat_completeness auto
termination
proof (relation "measure (\<lambda>its. sum_list (map length its))")
  show "wf (measure (\<lambda>its. sum_list (map length its)))" by simp
next
  fix its :: "triple list list" and x2 k j
  assume "least_head 0 its = Some x2" and "(k, j) = x2"
  then have j: "j < length its" "its ! j \<noteq> []"
    using least_head_Some[of 0 its k j] by auto
  then have "sum_list (map length (its[j := tl (its ! j)])) < sum_list (map length its)"
    by (rule sum_list_shrink)
  then show "(its[j := tl (its ! j)], its) \<in> measure (\<lambda>its. sum_list (map length its))"
    by simp
qed

declare heapq_merge.simps [simp del]

text \<open>
  Modelled from the spec: \<open>merge_and_sort_posts_and_tfs\<close> of \<open>util.py\<close>, which is not among the
  sources. The specification describes it as combining two postings/tf sequences "into one
  sorted-by-docId, duplicate-free list (a standard two-pointer merge of two already-sorted,
  disjoint-docId sequences)". On equal docIds, which disjoint inputs never show, one entry
  with the summed frequency keeps the result duplicate-free.
\<close>

fun merge_and_sort_posts_and_tfs ::
  "(int \<times> int) list \<Rightarrow> (int \<times> int) list \<Rightarrow> (int \<times> int) list" where
  "merge_and_sort_posts_and_tfs [] ys = ys"
| "merge_and_sort_posts_and_tfs xs [] = xs"
| "merge_and_sort_posts_and_tfs ((d1, f1) # xs) ((d2, f2) # ys) =
     (if d1 < d2 then (d1, f1) # merge_and_sort_posts_and_tfs xs ((d2, f2) # ys)
      else if d2 < d1 then (d2, f2) # merge_and_sort_posts_and_tfs ((d1, f1) # xs) ys
      else (d1, f1 + f2) # merge_and_sort_posts_and_tfs xs ys)"

text \<open>
  The body of the loop of \<open>merge_index\<close>; its state is the accumulator
  \<open>(curr, postings, tf_list)\<close> and the writer.
\<close>

definition combine :: "triple \<Rightarrow> triple \<Rightarrow> triple" where
  "combine acc x =
     (case acc of (curr_term, postings, tf_list) \<Rightarrow>
      case x of (t, postings', tf_list') \<Rightarrow>
        let zip_p_tf = merge_and_sort_posts_and_tfs (zip postings tf_list) (zip postings' tf_list')
        in (curr_term, map fst zip_p_tf, map snd zip_p_tf))"

definition merge_step :: "triple \<times> writer \<Rightarrow> triple \<Rightarrow> triple \<times> writer" where
  "merge_step st x =
     (case st of (acc, merged_index) \<Rightarrow>
        if fst x = fst acc then (combine acc x, merged_index)
        else (x, merged_index @ [acc]))"

text \<open>
  \<open>merge_index\<close> returns the exception it raised, if any, and the writer as it leaves it.
  \<open>next(merged_iter)\<close> raises StopIteration when the merged sequence is empty.
\<close>

definition merge_index :: "triple list list \<Rightarrow> writer \<Rightarrow> py_error option \<times> writer" where
  "merge_index indices merged_index =
     (case heapq_merge indices of
        [] \<Rightarrow> (Some StopIteration, merged_index)
      | first # rest \<Rightarrow>
          (case foldl merge_step (first, merged_index) rest of
             (acc, merged_index') \<Rightarrow> (None, merged_index' @ [acc])))"

text \<open>
  The merge of two intermediate indices in the words of the specification: every termId
  once, in ascending order; a term of both inputs with its two postings/tf lists combined,
  a term of one input unchanged.
\<close>

fun spec_merged :: "triple list \<Rightarrow> triple list \<Rightarrow> triple list" where
  "spec_merged [] B = B"
| "spec_merged A [] = A"
| "spec_merged (a # A) (b # B) =
     (if fst a < fst b then a # spec_merged A (b # B)
      else if fst b < fst a then b # spec_merged (a # A) B
      else combine a b # spec_merged A B)"

text \<open>
  The invariants of an intermediate index (of any index file): strictly ascending termIds,
  and for each term strictly ascending docIds with one term frequency each.
\<close>

definition intermediate_index :: "triple list \<Rightarrow> bool" where
  "intermediate_index A \<longleftrightarrow>
     sorted_wrt (<) (map fst A) \<and>
     (\<forall>(t, postings, tf_list) \<in> set A.
        sorted_wrt (<) postings \<and> length tf_list = length postings)"

definition doc_ids :: "triple list \<Rightarrow> int set" where
  "doc_ids A = (\<Union>(t, postings, tf_list) \<in> set A. set postings)"

subsection \<open>The collaborators of retrieval\<close>

text \<open>
  Modelled from the spec: \<open>IdMap\<close> of \<open>util.py\<close>, which is not among the sources. The
  specification describes a "bidirectional string-integer-id registry with stable,
  insertion-ordered id assignment", whose ids "are assigned in strictly increasing order
  starting at 0, first-seen-gets-next-id", with "auto-create-on-lookup behavior". The map
  is the list of its keys, the id of a key being its position. \<open>IdMap_get_id\<close> is the lookup
  \<open>id_map[s]\<close> by a string, as \<open>parsing_block\<close> uses it to create ids; \<open>IdMap_get_str\<close> is the
  inverse lookup \<open>id_map[i]\<close> by an id, which fails on an id never assigned.
\<close>

type_synonym IdMap = "string list"

fun first_index :: "'a list \<Rightarrow> 'a \<Rightarrow> nat option" where
  "first_index [] s = None"
| "first_index (x # xs) s =
     (if x = s then Some 0 else map_option Suc (first_index xs s))"

definition IdMap_get_id :: "IdMap \<Rightarrow> string \<Rightarrow> int \<times> IdMap" where
  "IdMap_get_id m s =
     (case first_index m s of
        Some i \<Rightarrow> (int i, m)
      | None \<Rightarrow> (int (length m), m @ [s]))"

definition IdMap_get_str :: "IdMap \<Rightarrow> int \<Rightarrow> py_error + string" where
  "IdMap_get_str m i = (if 0 \<le> i \<and> i < int (length m) then Inr (m ! nat i) else Inl IndexError)"

text \<open>
  Modelled from the spec: \<open>InvertedIndexReader\<close> of \<open>index.py\<close>, which is not among the
  sources. Per the specification an open reader holds the directory and the document-length
  table, \<open>get_postings_list\<close> "decodes and returns (postings list, tf list) for that term, or
  signals term not found (empty result) if termId is absent from the directory", and a
  fresh reader returns "exactly the postings/tf lists that were appended". So a reader is
  the sequence of appended triples together with the document-length table.
\<close>

record index_reader =
  terms :: "triple list"
  doc_length :: "(int, int) dict"

definition get_postings_list :: "index_reader \<Rightarrow> int \<Rightarrow> int list \<times> int list" where
  "get_postings_list merged_index term_id =
     (case map_of (terms merged_index) term_id of
        None \<Rightarrow> ([], [])
      | Some (postings_list, tf_list) \<Rightarrow> (postings_list, tf_list))"

text \<open>
  Floats are modelled as real numbers: rounding is not modelled. \<open>math.log10\<close> raises
  ValueError outside the positive numbers.
\<close>

definition math_log10 :: "real \<Rightarrow> py_error + real" where
  "math_log10 x = (if 0 < x then Inr (log 10 x) else Inl ValueError)"

text \<open>
  \<open>sorted(items, key=lambda x: x[1], reverse=True)\<close> is stable: descending in the key, items
  of equal key in their original order. \<open>xs[:k]\<close> counts a negative \<open>k\<close> from the end.
\<close>

definition sorted_by_score_reverse :: "(int \<times> real) list \<Rightarrow> (int \<times> real) list" where
  "sorted_by_score_reverse items = sort_key (\<lambda>x. - snd x) items"

definition slice_to :: "int \<Rightarrow> 'a list \<Rightarrow> 'a list" where
  "slice_to k xs = (if 0 \<le> k then take (nat k) xs else take (length xs - nat (- k)) xs)"

text \<open>A list comprehension whose element expression may raise stops at the first error.\<close>

fun mapE :: "('a \<Rightarrow> py_error + 'b) \<Rightarrow> 'a list \<Rightarrow> py_error + 'b list" where
  "mapE f [] = Inr []"
| "mapE f (x # xs) = bindE (f x) (\<lambda>y. bindE (mapE f xs) (\<lambda>ys. Inr (y # ys)))"

subsection \<open>\<open>BSBIIndex.retrieve_tfidf\<close> and \<open>BSBIIndex.retrieve_bm25\<close>\<close>

text \<open>
  Of the object \<open>self\<close> the two id maps matter. \<open>pre_processing_text\<close> delegates to NLTK's
  tokenizer, stemmer and stop word list; it is the parameter \<open>pre\<close>, a function from the
  query to its terms. The merged index on disk is the parameter \<open>merged_index\<close>. Both methods
  return their result or the exception raised, and \<open>self\<close> as they leave it.
\<close>

record BSBIIndex =
  term_id_map :: IdMap
  doc_id_map :: IdMap

text \<open>The inner loop of \<open>retrieve_tfidf\<close> over \<open>zip(postings_list, tf_list)\<close>.\<close>

definition tfidf_posting :: "real \<Rightarrow> (int, real) dict \<Rightarrow> int \<times> int \<Rightarrow> (int, real) dict" where
  "tfidf_posting idf scores p =
     (case p of (doc_id, tf) \<Rightarrow>
        let wtD = (if tf > 0 then 1 + log 10 (real_of_int tf) else 0);
            score = idf * wtD
        in AList.update doc_id (dict_get scores doc_id 0 + score) scores)"

text \<open>The loop of \<open>retrieve_tfidf\<close> over the query terms; its state is the term map and
  \<open>scores\<close>.\<close>

fun tfidf_terms ::
  "index_reader \<Rightarrow> nat \<Rightarrow> string list \<Rightarrow> IdMap \<Rightarrow> (int, real) dict
   \<Rightarrow> (py_error + (int, real) dict) \<times> IdMap" where
  "tfidf_terms merged_index N [] tmap scores = (Inr scores, tmap)"
| "tfidf_terms merged_index N (term # query_terms) tmap scores =
     (case IdMap_get_id tmap term of (term_id, tmap') \<Rightarrow>
      case get_postings_list merged_index term_id of (postings_list, tf_list) \<Rightarrow>
        let df = length postings_list in
        if df > 0 then
          (case math_log10 (real N / real df) of
             Inl e \<Rightarrow> (Inl e, tmap')
           | Inr idf \<Rightarrow>
               tfidf_terms merged_index N query_terms tmap'
                 (foldl (tfidf_posting idf) scores (zip postings_list tf_list)))
        else tfidf_terms merged_index N query_terms tmap' scores)"

text \<open>The ranking and the resolution of the document paths, common to both methods.\<close>

definition top_k :: "IdMap \<Rightarrow> (int, real) dict \<Rightarrow> int \<Rightarrow> py_error + (real \<times> string) list" where
  "top_k dmap scores k =
     (let ranked_docs = sorted_by_score_reverse scores
      in mapE (\<lambda>(doc_id, score). bindE (IdMap_get_str dmap doc_id) (\<lambda>path. Inr (score, path)))
           (slice_to k ranked_docs))"

definition retrieve_tfidf ::
  "(string \<Rightarrow> string list) \<Rightarrow> index_reader \<Rightarrow> BSBIIndex \<Rightarrow> string \<Rightarrow> int
   \<Rightarrow> (py_error + (real \<times> string) list) \<times> BSBIIndex" where
  "retrieve_tfidf pre merged_index self query k =
     (let query_terms = pre query;
          N = length (doc_length merged_index)
      in case tfidf_terms merged_index N query_terms (term_id_map self) [] of
           (Inl e, tmap') \<Rightarrow> (Inl e, self\<lparr>term_id_map := tmap'\<rparr>)
         | (Inr scores, tmap') \<Rightarrow>
             (top_k (doc_id_map self) scores k, self\<lparr>term_id_map := tmap'\<rparr>))"

text \<open>The inner loop of \<open>retrieve_bm25\<close>: \<open>math.log10(tf)\<close> is not guarded.\<close>

fun bm25_postings ::
  "real \<Rightarrow> (int, real) dict \<Rightarrow> (int \<times> int) list \<Rightarrow> py_error + (int, real) dict" where
  "bm25_postings idf scores [] = Inr scores"
| "bm25_postings idf scores ((doc_id, tf) # ps) =
     (case math_log10 (real_of_int tf) of
        Inl e \<Rightarrow> Inl e
      | Inr l \<Rightarrow>
          let score = (1 + l) * idf
          in bm25_postings idf (AList.update doc_id (dict_get scores doc_id 0 + score) scores) ps)"

fun bm25_terms ::
  "index_reader \<Rightarrow> nat \<Rightarrow> string list \<Rightarrow> IdMap \<Rightarrow> (int, real) dict
   \<Rightarrow> (py_error + (int, real) dict) \<times> IdMap" where
  "bm25_terms merged_index N [] tmap scores = (Inr scores, tmap)"
| "bm25_terms merged_index N (term # query_terms) tmap scores =
     (case IdMap_get_id tmap term of (term_id, tmap') \<Rightarrow>
      case get_postings_list merged_index term_id of (postings_list, tf_list) \<Rightarrow>
        let df = length postings_list in
        if df > 0 then
          (case math_log10 (real N / real df) of
             Inl e \<Rightarrow> (Inl e, tmap')
           | Inr idf \<Rightarrow>
               (case bm25_postings idf scores (zip postings_list tf_list) of
                  Inl e \<Rightarrow> (Inl e, tmap')
                | Inr scores' \<Rightarrow> bm25_terms merged_index N query_terms tmap' scores'))
        else bm25_terms merged_index N query_terms tmap' scores)"

definition retrieve_bm25 ::
  "(string \<Rightarrow> string list) \<Rightarrow> index_reader \<Rightarrow> BSBIIndex \<Rightarrow> string \<Rightarrow> int \<Rightarrow> real \<Rightarrow> real
   \<Rightarrow> (py_error + (real \<times> string) list) \<times> BSBIIndex" where
  "retrieve_bm25 pre merged_index self query k k1 b =
     (let query_terms = pre query;
          N = length (doc_length merged_index)
      in case bm25_terms merged_index N query_terms (term_id_map self) [] of
           (Inl e, tmap') \<Rightarrow> (Inl e, self\<lparr>term_id_map := tmap'\<rparr>)
         | (Inr scores, tmap') \<Rightarrow>
             (top_k (doc_id_map self) scores k, self\<lparr>term_id_map := tmap'\<rparr>))"

subsection \<open>Auxiliary definitions of the proofs about \<open>bsbi.py\<close>\<close>

text \<open>
  \<open>counted td xs\<close> is the invariant of the first loop of \<open>write_to_index\<close>: after the pairs
  \<open>xs\<close>, the dictionary \<open>td\<close> holds for every term of \<open>xs\<close> the number of occurrences of each of
  its documents. \<open>merge2\<close> is the stable merge by termId that \<open>heapq.merge\<close> performs on two
  iterables; \<open>groupM\<close> and \<open>groupL\<close> are the loop of \<open>merge_index\<close> as a function of the merged
  sequence.
\<close>

definition counted :: "(int, (int, int) dict) dict \<Rightarrow> (int \<times> int) list \<Rightarrow> bool" where
  "counted td xs \<longleftrightarrow>
     distinct (map fst td) \<and> set (map fst td) = fst ` set xs \<and>
     (\<forall>t inner. map_of td t = Some inner \<longrightarrow>
        distinct (map fst inner) \<and> set (map fst inner) = {d. (t, d) \<in> set xs} \<and>
        (\<forall>d. (t, d) \<in> set xs \<longrightarrow> map_of inner d = Some (int (count_list xs (t, d)))))"

fun merge2 :: "triple list \<Rightarrow> triple list \<Rightarrow> triple list" where
  "merge2 [] B = B"
| "merge2 A [] = A"
| "merge2 (a # A) (b # B) =
     (if fst a \<le> fst b then a # merge2 A (b # B) else b # merge2 (a # A) B)"

fun groupM :: "triple \<Rightarrow> triple list \<Rightarrow> triple list" where
  "groupM acc [] = [acc]"
| "groupM acc (x # M) = (if fst x = fst acc then groupM (combine acc x) M else acc # groupM x M)"

definition groupL :: "triple list \<Rightarrow> triple list" where
  "groupL M = (case M of [] \<Rightarrow> [] | x # M' \<Rightarrow> groupM x M')"

subsection \<open>Auxiliary definitions of the proofs about retrieval\<close>

text \<open>
  \<open>terms_loop inner\<close> is the loop over the query terms that \<open>retrieve_tfidf\<close> and
  \<open>retrieve_bm25\<close> share, \<open>inner\<close> being the loop over the postings of one term.
  \<open>vocab_postings\<close> is what a query term contributes when it is looked up in a fixed
  vocabulary \<open>m0\<close>, and \<open>pure_loop\<close> is the loop over these contributions, without the
  term map as state.
\<close>

fun terms_loop ::
  "(real \<Rightarrow> (int, real) dict \<Rightarrow> (int \<times> int) list \<Rightarrow> py_error + (int, real) dict)
   \<Rightarrow> index_reader \<Rightarrow> nat \<Rightarrow> string list \<Rightarrow> IdMap \<Rightarrow> (int, real) dict
   \<Rightarrow> (py_error + (int, real) dict) \<times> IdMap" where
  "terms_loop inner r N [] tmap scores = (Inr scores, tmap)"
| "terms_loop inner r N (term # query_terms) tmap scores =
     (case IdMap_get_id tmap term of (term_id, tmap') \<Rightarrow>
      case get_postings_list r term_id of (postings_list, tf_list) \<Rightarrow>
        if length postings_list > 0 then
          (case math_log10 (real N / real (length postings_list)) of
             Inl e \<Rightarrow> (Inl e, tmap')
           | Inr idf \<Rightarrow>
               (case inner idf scores (zip postings_list tf_list) of
                  Inl e \<Rightarrow> (Inl e, tmap')
                | Inr scores' \<Rightarrow> terms_loop inner r N query_terms tmap' scores'))
        else terms_loop inner r N query_terms tmap' scores)"

definition tfidf_inner ::
  "real \<Rightarrow> (int, real) dict \<Rightarrow> (int \<times> int) list \<Rightarrow> py_error + (int, real) dict" where
  "tfidf_inner idf scores ps = Inr (foldl (tfidf_posting idf) scores ps)"

definition vocab_postings :: "index_reader \<Rightarrow> IdMap \<Rightarrow> string \<Rightarrow> int list \<times> int list" where
  "vocab_postings r m0 term =
     (case first_index m0 term of
        None \<Rightarrow> ([], [])
      | Some i \<Rightarrow> get_postings_list r (int i))"

fun pure_loop ::
  "(real \<Rightarrow> (int, real) dict \<Rightarrow> (int \<times> int) list \<Rightarrow> py_error + (int, real) dict)
   \<Rightarrow> index_reader \<Rightarrow> IdMap \<Rightarrow> nat \<Rightarrow> string list \<Rightarrow> (int, real) dict
   \<Rightarrow> py_error + (int, real) dict" where
  "pure_loop inner r m0 N [] scores = Inr scores"
| "pure_loop inner r m0 N (term # query_terms) scores =
     (case vocab_postings r m0 term of (postings_list, tf_list) \<Rightarrow>
        if length postings_list > 0 then
          (case math_log10 (real N / real (length postings_list)) of
             Inl e \<Rightarrow> Inl e
           | Inr idf \<Rightarrow>
               (case inner idf scores (zip postings_list tf_list) of
                  Inl e \<Rightarrow> Inl e
                | Inr scores' \<Rightarrow> pure_loop inner r m0 N query_terms scores'))
        else pure_loop inner r m0 N query_terms scores)"

text \<open>
  The scores in the words of the specification. A query term found in the vocabulary with
  document frequency \<open>df > 0\<close> gives every \<open>(docId, tf)\<close> of its postings the weight
  \<open>idf * (1 + log10 tf)\<close>, or 0 when \<open>tf\<close> is not positive, where \<open>idf = log10 (N / df)\<close>; the
  score of a document is the sum of its weights over the query terms. \<open>matching_docs\<close> are
  the documents that receive a weight.
\<close>

definition tfidf_weight :: "int \<Rightarrow> real" where
  "tfidf_weight tf = (if tf > 0 then 1 + log 10 (real_of_int tf) else 0)"

definition term_score :: "index_reader \<Rightarrow> IdMap \<Rightarrow> nat \<Rightarrow> string \<Rightarrow> int \<Rightarrow> real" where
  "term_score r m0 N term d =
     (case vocab_postings r m0 term of (postings_list, tf_list) \<Rightarrow>
        if length postings_list > 0
        then (\<Sum>(d', tf) \<leftarrow> zip postings_list tf_list.
                if d' = d then log 10 (real N / real (length postings_list)) * tfidf_weight tf
                else 0)
        else 0)"

definition spec_score :: "index_reader \<Rightarrow> IdMap \<Rightarrow> nat \<Rightarrow> string list \<Rightarrow> int \<Rightarrow> real" where
  "spec_score r m0 N query_terms d = (\<Sum>term \<leftarrow> query_terms. term_score r m0 N term d)"

definition matching_docs :: "index_reader \<Rightarrow> IdMap \<Rightarrow> string list \<Rightarrow> int set" where
  "matching_docs r m0 query_terms =
     (\<Union>term \<in> set query_terms.
        case vocab_postings r m0 term of (postings_list, tf_list) \<Rightarrow>
          fst ` set (zip postings_list tf_list))"

text \<open>
  \<open>known_terms r m0\<close>: every termId of the index was assigned by the vocabulary \<open>m0\<close>, as it
  is when the index and the term map come from the same indexing run.
\<close>

definition known_terms :: "index_reader \<Rightarrow> IdMap \<Rightarrow> bool" where
  "known_terms r m0 \<longleftrightarrow> (\<forall>t \<in> fst ` set (terms r). 0 \<le> t \<and> t < int (length m0))"

text \<open>
  \<open>docs_have_length r\<close>: every document of a postings list has an entry in the
  document-length table, as the writer makes one for every posting it appends.
\<close>

definition docs_have_length :: "index_reader \<Rightarrow> bool" where
  "docs_have_length r \<longleftrightarrow>
     (\<forall>(t, postings_list, tf_list) \<in> set (terms r). set postings_list \<subseteq> fst ` set (doc_length r))"

text \<open>
  \<open>in_collection r m0 term\<close>: the term occurs in the indexed collection, that is, the term
  map \<open>m0\<close> holds it and the index has a non-empty postings list under its id. A term that
  an earlier query has registered in the term map is still not in the collection.
\<close>

definition in_collection :: "index_reader \<Rightarrow> IdMap \<Rightarrow> string \<Rightarrow> bool" where
  "in_collection r m0 term =
     (case first_index m0 term of
        None \<Rightarrow> False
      | Some i \<Rightarrow> fst (get_postings_list r (int i)) \<noteq> [])"

section \<open>Properties of the codecs\<close>

lemma bindE_Inr [simp]: "bindE (Inr v) f = f v" by (simp add: bindE_def)

lemma bindE_Inl [simp]: "bindE (Inl e) f = Inl e" by (simp add: bindE_def)

lemma from_le_Cons [simp]: "from_le (b # bs) = b + 256 * from_le bs"
  by (simp add: from_le_def)

lemma from_le_Nil [simp]: "from_le [] = 0"
  by (simp add: from_le_def)

lemma le_bytes_Suc: "le_bytes (Suc w) x = (x mod 256) # le_bytes w (x div 256)"
proof -
  have "[0..<Suc w] = 0 # map Suc [0..<w]"
    by (simp add: upt_conv_Cons map_Suc_upt del: upt_Suc)
  then show ?thesis
    by (simp add: le_bytes_def comp_def div_mult2_eq' zdiv_zmult2_eq del: upt_Suc)
qed

lemma le_bytes_0 [simp]: "le_bytes 0 x = []"
  by (simp add: le_bytes_def)

lemma length_le_bytes [simp]: "length (le_bytes w x) = w"
  by (simp add: le_bytes_def)

lemma from_le_le_bytes: "0 \<le> x \<Longrightarrow> x < 256 ^ w \<Longrightarrow> from_le (le_bytes w x) = x"
proof (induction w arbitrary: x)
  case 0
  then show ?case by simp
next
  case (Suc w)
  have "x div 256 < 256 ^ w" using Suc.prems by (simp add: div_less_iff_less_mult mult.commute) 
  moreover have "0 \<le> x div 256" using Suc.prems by simp
  ultimately have "from_le (le_bytes w (x div 256)) = x div 256" by (rule Suc.IH[rotated])
  then show ?case by (simp add: le_bytes_Suc)
qed

lemma chunks_Nil [simp]: "chunks w [] = []"
  by (simp add: chunks.simps)

lemma chunks_append: "0 < w \<Longrightarrow> length a = w \<Longrightarrow> chunks w (a @ bs) = a # chunks w bs"
  by (subst chunks.simps) auto

lemma chunks_tobytes: "0 < w \<Longrightarrow> chunks w (tobytes w xs) = map (le_bytes w) xs"
  by (induction xs) (simp_all add: tobytes_def chunks_append)

lemma length_tobytes [simp]: "length (tobytes w xs) = w * length xs"
  by (induction xs) (simp_all add: tobytes_def)

lemma frombytes_tobytes:
  assumes "0 < w" "\<forall>x \<in> set xs. 0 \<le> x \<and> x < 256 ^ w"
  shows "frombytes w (tobytes w xs) = Inr xs"
proof -
  have "map from_le (map (le_bytes w) xs) = xs"
    using assms(2) by (induction xs) (simp_all add: from_le_le_bytes)
  then show ?thesis using assms(1) by (simp add: frombytes_def chunks_tobytes)
qed

lemma vb_digits_acc: "vb_digits n acc = vb_digits n [] @ acc"
proof (induction "nat n" arbitrary: n acc rule: less_induct)
  case less
  show ?case
  proof (cases "n < 128")
    case True
    then show ?thesis by (simp add: vb_digits.simps)
  next
    case False
    then have lt: "nat (n div 128) < nat n" by simp
    have "vb_digits n acc = vb_digits (n div 128) ((n mod 128) # acc)"
      using False by (subst vb_digits.simps) simp
    also have "\<dots> = vb_digits (n div 128) [] @ (n mod 128) # acc"
      by (rule less[OF lt])
    also have "\<dots> = (vb_digits (n div 128) [] @ [n mod 128]) @ acc" by simp
    also have "vb_digits (n div 128) [] @ [n mod 128] = vb_digits (n div 128) [n mod 128]"
      by (rule less[OF lt, symmetric])
    also have "vb_digits (n div 128) [n mod 128] = vb_digits n []"
      using False by (subst (2) vb_digits.simps) simp
    finally show ?thesis .
  qed
qed

lemma vb_digits_small: "n < 128 \<Longrightarrow> vb_digits n [] = [n mod 128]"
  by (simp add: vb_digits.simps)

lemma vb_digits_big: "\<not> n < 128 \<Longrightarrow> vb_digits n [] = vb_digits (n div 128) [] @ [n mod 128]"
  by (subst vb_digits.simps, subst vb_digits_acc) simp

lemma vb_digits_range: "d \<in> set (vb_digits n []) \<Longrightarrow> 0 \<le> d \<and> d < 128"
proof (induction "nat n" arbitrary: n rule: less_induct)
  case less
  show ?case
  proof (cases "n < 128")
    case True
    with less.prems show ?thesis by (simp add: vb_digits_small)
  next
    case False
    then have lt: "nat (n div 128) < nat n" by simp
    from less.prems False have "d \<in> set (vb_digits (n div 128) []) \<or> d = n mod 128"
      by (auto simp add: vb_digits_big)
    then show ?thesis using less.hyps[OF lt] by auto
  qed
qed

lemma horner_vb_digits: "0 \<le> n \<Longrightarrow> horner 0 (vb_digits n []) = n"
proof (induction "nat n" arbitrary: n rule: less_induct)
  case less
  show ?case
  proof (cases "n < 128")
    case True
    with less.prems show ?thesis by (simp add: vb_digits_small horner_def)
  next
    case False
    then have lt: "nat (n div 128) < nat n" by simp
    have "0 \<le> n div 128" using less.prems by simp
    then have "horner 0 (vb_digits (n div 128) []) = n div 128"
      by (rule less.hyps[OF lt])
    then show ?thesis using False by (simp add: vb_digits_big horner_def)
  qed
qed

lemma vb_digits_nonempty: "vb_digits n [] \<noteq> []"
  by (cases "n < 128") (simp_all add: vb_digits_small vb_digits_big)

lemma decode_low:
  "\<forall>d \<in> set ds. d < 128 \<Longrightarrow> foldl vb_decode_step (ns, m) ds = (ns, horner m ds)"
  by (induction ds arbitrary: m) (simp_all add: vb_decode_step_def horner_def)

lemma decode_number:
  assumes "0 \<le> x"
  shows "foldl vb_decode_step (ns, 0) (vb_encode_number x) = (ns @ [x], 0)"
proof -
  define ds where "ds = vb_digits x []"
  have ne: "ds \<noteq> []" by (simp add: ds_def vb_digits_nonempty)
  have low: "\<forall>d \<in> set (butlast ds). d < 128"
    using vb_digits_range[of _ x] by (auto simp: ds_def dest: in_set_butlastD)
  have lst: "0 \<le> last ds" using vb_digits_range[of "last ds" x] ne by (simp add: ds_def)
  have "horner 0 ds = x" using assms by (simp add: ds_def horner_vb_digits)
  moreover have "horner 0 ds = 128 * horner 0 (butlast ds) + last ds"
    using ne by (subst append_butlast_last_id[OF ne, symmetric]) (simp add: horner_def del: append_butlast_last_id)
  ultimately have val: "128 * horner 0 (butlast ds) + last ds = x" by simp
  have "foldl vb_decode_step (ns, 0) (vb_encode_number x)
      = vb_decode_step (ns, horner 0 (butlast ds)) (last ds + 128)"
    by (simp add: vb_encode_number_def ds_def[symmetric] Let_def decode_low[OF low])
  also have "\<dots> = (ns @ [x], 0)" using lst val by (simp add: vb_decode_step_def)
  finally show ?thesis .
qed

lemma foldl_append_concat:
  "foldl (\<lambda>bs n. bs @ f n) acc xs = acc @ concat (map f xs)"
  by (induction xs arbitrary: acc) simp_all

lemma decode_stream:
  "\<forall>x \<in> set xs. 0 \<le> x \<Longrightarrow>
   foldl vb_decode_step (ns, 0) (concat (map vb_encode_number xs)) = (ns @ xs, 0)"
  by (induction xs arbitrary: ns) (simp_all add: decode_number)

lemma vb_decode_encode_stream:
  "\<forall>x \<in> set xs. 0 \<le> x \<Longrightarrow> vb_decode (concat (map vb_encode_number xs)) = xs"
  by (simp add: vb_decode_def decode_stream)

lemma vb_encode_number_range:
  "b \<in> set (vb_encode_number x) \<Longrightarrow> 0 \<le> b \<and> b < 256"
proof -
  assume a: "b \<in> set (vb_encode_number x)"
  define ds where "ds = vb_digits x []"
  have ne: "ds \<noteq> []" by (simp add: ds_def vb_digits_nonempty)
  from a have "b \<in> set (butlast ds) \<or> b = last ds + 128"
    by (auto simp add: vb_encode_number_def ds_def[symmetric] Let_def)
  moreover have "0 \<le> last ds \<and> last ds < 128" using vb_digits_range[of "last ds" x] ne by (simp add: ds_def)
  moreover have "b \<in> set (butlast ds) \<Longrightarrow> 0 \<le> b \<and> b < 128"
    using vb_digits_range[of b x] by (auto simp: ds_def dest: in_set_butlastD)
  ultimately show ?thesis by auto
qed

lemma pow256_ge: "0 < w \<Longrightarrow> (256::int) \<le> 256 ^ w"
  by (cases w) simp_all

lemma array_L_stream:
  "0 < w \<Longrightarrow> array_L w (concat (map vb_encode_number xs)) = Inr (concat (map vb_encode_number xs))"
  using pow256_ge[of w] by (fastforce simp: array_L_def dest: vb_encode_number_range)

lemma vb_encode_eq:
  "0 < w \<Longrightarrow> vb_encode w xs = Inr (tobytes w (concat (map vb_encode_number xs)))"
  by (simp add: vb_encode_def foldl_append_concat array_L_stream)

lemma wrap64_id: "- (2 ^ 63) \<le> x \<Longrightarrow> x < 2 ^ 63 \<Longrightarrow> wrap64 x = x"
  by (simp add: wrap64_def)

lemma diff_cumsum:
  "sorted (a # L) \<Longrightarrow> 0 \<le> a \<Longrightarrow> \<forall>x \<in> set L. x < 2 ^ 63 \<Longrightarrow>
   (\<forall>g \<in> set (diff_list (a # L)). 0 \<le> g \<and> g < 2 ^ 63) \<and>
   cumsum_from a (diff_list (a # L)) = L"
proof (induction L arbitrary: a)
  case Nil
  then show ?case by simp
next
  case (Cons b L)
  have ab: "a \<le> b" "b < 2 ^ 63" "0 \<le> b" using Cons.prems by auto
  have w: "wrap64 (b - a) = b - a" using ab Cons.prems(2) by (intro wrap64_id) auto
  have IH: "(\<forall>g \<in> set (diff_list (b # L)). 0 \<le> g \<and> g < 2 ^ 63) \<and>
     cumsum_from b (diff_list (b # L)) = L"
    using Cons.prems ab by (intro Cons.IH) auto
  have w2: "wrap64 b = b" using ab by (intro wrap64_id) auto
  show ?case using IH ab Cons.prems(2) by (simp add: w w2)
qed

lemma np_asarray_ok: "\<forall>x \<in> set xs. 0 \<le> x \<and> x < 2 ^ 63 \<Longrightarrow> np_asarray xs = Inr xs"
  by (auto simp: np_asarray_def)

lemma VBE_roundtrip_sorted:
  assumes "0 < w" "sorted L" "\<forall>x \<in> set L. 0 \<le> x \<and> x < 2 ^ 63"
  shows "VBE_roundtrip w L = Inr L"
proof -
  let ?gaps = "diff_list (0 # L)"
  have s: "sorted (0 # L)" using assms by auto
  have dc: "(\<forall>g \<in> set ?gaps. 0 \<le> g \<and> g < 2 ^ 63) \<and> cumsum_from 0 ?gaps = L"
    using assms(3) by (intro diff_cumsum[OF s]) auto
  have a0: "np_asarray (0 # L) = Inr (0 # L)" using assms(3) by (intro np_asarray_ok) auto
  have enc: "VBE_encode w L = Inr (tobytes w (concat (map vb_encode_number ?gaps)))"
    by (simp add: VBE_encode_def np_diff_def a0 vb_encode_eq[OF assms(1)])
  have rng: "\<forall>x \<in> set (concat (map vb_encode_number ?gaps)). 0 \<le> x \<and> x < 256 ^ w"
    using pow256_ge[OF assms(1)] by (fastforce dest: vb_encode_number_range)
  have "VBE_decode w (tobytes w (concat (map vb_encode_number ?gaps))) = np_cumsum ?gaps"
    using dc by (simp add: VBE_decode_def frombytes_tobytes[OF assms(1) rng] vb_decode_encode_stream)
  also have "\<dots> = Inr L" using dc by (simp add: np_cumsum_def np_asarray_ok)
  finally show ?thesis by (simp add: VBE_roundtrip_def enc)
qed

lemma Standard_roundtrip_ok:
  assumes "0 < w" "\<forall>x \<in> set L. 0 \<le> x \<and> x < 256 ^ w"
  shows "Standard_roundtrip w L = Inr L"
  using assms
  by (simp add: Standard_roundtrip_def Standard_encode_def Standard_decode_def array_L_def
      frombytes_tobytes)

lemma vb_encode_number_small: "0 \<le> x \<Longrightarrow> x < 128 \<Longrightarrow> vb_encode_number x = [x + 128]"
  by (simp add: vb_encode_number_def vb_digits_small)

lemma le_bytes_byte:
  "0 < w \<Longrightarrow> 0 \<le> b \<Longrightarrow> b < 256 \<Longrightarrow> le_bytes w b = b # replicate (w - 1) 0"
proof -
  assume w: "0 < w" and b: "0 \<le> b" "b < 256"
  have z: "le_bytes n 0 = replicate n 0" for n
    by (induction n) (simp_all add: le_bytes_Suc)
  from w obtain n where "w = Suc n" by (cases w) auto
  then show ?thesis using b by (simp add: le_bytes_Suc z)
qed

lemma decode_zeros: "foldl vb_decode_step (ns, 0) (replicate k 0) = (ns, 0)"
  by (induction k) (simp_all add: vb_decode_step_def)

lemma decode_tf_stream:
  "0 < w \<Longrightarrow> \<forall>x \<in> set L. 0 \<le> x \<and> x < 128 \<Longrightarrow>
   foldl vb_decode_step (ns, 0) (tobytes w (concat (map vb_encode_number L))) = (ns @ L, 0)"
proof (induction L arbitrary: ns)
  case Nil
  then show ?case by (simp add: tobytes_def)
next
  case (Cons x L)
  have x: "0 \<le> x" "x < 128" using Cons.prems by auto
  have "tobytes w (concat (map vb_encode_number (x # L)))
      = (x + 128) # replicate (w - 1) 0 @ tobytes w (concat (map vb_encode_number L))"
    using x Cons.prems(1) by (simp add: tobytes_def vb_encode_number_small le_bytes_byte)
  moreover have "vb_decode_step (ns, 0) (x + 128) = (ns @ [x], 0)"
    using x by (simp add: vb_decode_step_def)
  ultimately show ?case using Cons.IH[of "ns @ [x]"] Cons.prems
    by (simp add: decode_zeros)
qed

lemma VBE_roundtrip_tf_small:
  "0 < w \<Longrightarrow> \<forall>x \<in> set L. 0 \<le> x \<and> x < 128 \<Longrightarrow> VBE_roundtrip_tf w L = Inr L"
  by (simp add: VBE_roundtrip_tf_def VBE_encode_tf_def vb_encode_eq VBE_decode_tf_def
      vb_decode_def decode_tf_stream)

lemma vb_encode_length:
  "0 < w \<Longrightarrow> \<exists>bs. vb_encode w L = Inr bs \<and>
     length bs = w * (\<Sum>n\<leftarrow>L. length (vb_digits n []))"
proof -
  assume w: "0 < w"
  have l: "length (vb_encode_number n) = length (vb_digits n [])" for n
    using vb_digits_nonempty[of n] by (simp add: vb_encode_number_def Let_def)
  have "length (concat (map vb_encode_number L)) = (\<Sum>n\<leftarrow>L. length (vb_digits n []))"
    by (induction L) (simp_all add: l)
  then show ?thesis by (simp add: vb_encode_eq[OF w])
qed

lemma horner_zeros: "horner m (replicate k 0) = m * 128 ^ k"
  by (induction k arbitrary: m) (simp_all add: horner_def)

lemma decode_low_word:
  assumes "0 < w" "\<forall>d \<in> set ds. 0 \<le> d \<and> d < 128"
  shows "foldl vb_decode_step (ns, m) (tobytes w ds) = (ns, stretched w m ds)"
  using assms(2)
proof (induction ds arbitrary: m)
  case Nil
  then show ?case by (simp add: tobytes_def stretched_def)
next
  case (Cons d ds)
  have d: "0 \<le> d" "d < 128" using Cons.prems by auto
  have "foldl vb_decode_step (ns, m) (le_bytes w d) = (ns, (128 * m + d) * 128 ^ (w - 1))"
    using d assms(1) by (simp add: le_bytes_byte decode_low vb_decode_step_def horner_zeros)
  moreover have "tobytes w (d # ds) = le_bytes w d @ tobytes w ds" by (simp add: tobytes_def)
  ultimately show ?case using Cons.IH[of "(128 * m + d) * 128 ^ (w - 1)"] Cons.prems
    by (simp add: stretched_def)
qed

lemma decode_number_words:
  assumes "0 < w"
  shows "foldl vb_decode_step (ns, 0) (tobytes w (vb_encode_number x)) = (ns @ [misread w x], 0)"
proof -
  define ds where "ds = vb_digits x []"
  have ne: "ds \<noteq> []" by (simp add: ds_def vb_digits_nonempty)
  have low: "\<forall>d \<in> set (butlast ds). 0 \<le> d \<and> d < 128"
    using vb_digits_range[of _ x] by (auto simp: ds_def dest: in_set_butlastD)
  have lst: "0 \<le> last ds" "last ds < 128"
    using vb_digits_range[of "last ds" x] ne by (simp_all add: ds_def)
  have "tobytes w (vb_encode_number x)
      = tobytes w (butlast ds) @ (last ds + 128) # replicate (w - 1) 0"
    using lst assms by (simp add: vb_encode_number_def ds_def[symmetric] Let_def tobytes_def le_bytes_byte)
  then show ?thesis using lst
    by (simp add: decode_low_word[OF assms low] vb_decode_step_def decode_zeros misread_def
        ds_def[symmetric] Let_def)
qed

lemma tobytes_append: "tobytes w (xs @ ys) = tobytes w xs @ tobytes w ys"
  by (simp add: tobytes_def)

lemma decode_stream_words:
  "0 < w \<Longrightarrow> foldl vb_decode_step (ns, 0) (tobytes w (concat (map vb_encode_number L)))
     = (ns @ map (misread w) L, 0)"
  by (induction L arbitrary: ns) (simp_all add: tobytes_append decode_number_words, simp add: tobytes_def)

lemma roundtrip_tf_eq: "0 < w \<Longrightarrow> VBE_roundtrip_tf w L = Inr (map (misread w) L)"
  by (simp add: VBE_roundtrip_tf_def VBE_encode_tf_def vb_encode_eq VBE_decode_tf_def
      vb_decode_def decode_stream_words)

lemma misread_small: "x < 128 \<Longrightarrow> misread w x = x mod 128"
  by (simp add: misread_def vb_digits_small stretched_def)

lemma stretched_ge:
  "\<forall>d \<in> set ds. 0 \<le> d \<Longrightarrow> 0 \<le> h \<Longrightarrow> h \<le> m \<Longrightarrow> horner h ds \<le> stretched w m ds \<and> 0 \<le> horner h ds"
proof (induction ds arbitrary: h m)
  case Nil
  then show ?case by (simp add: horner_def stretched_def)
next
  case (Cons d ds)
  have d: "0 \<le> d" using Cons.prems by simp
  have p: "(1::int) \<le> 128 ^ (w - 1)" by simp
  have "128 * h + d \<le> 128 * m + d" using Cons.prems by simp
  also have "\<dots> \<le> (128 * m + d) * 128 ^ (w - 1)"
    using p d Cons.prems by (simp add: mult_le_cancel_left1)
  finally have le: "128 * h + d \<le> (128 * m + d) * 128 ^ (w - 1)" .
  have nn: "0 \<le> 128 * h + d" using d Cons.prems by simp
  show ?case using Cons.IH[OF _ nn le] Cons.prems(1) by (simp add: horner_def stretched_def)
qed

lemma misread_big:
  assumes "2 \<le> w" "128 \<le> x"
  shows "x < misread w x"
proof -
  define q where "q = x div 128"
  define bl where "bl = vb_digits q []"
  have q: "1 \<le> q" using assms(2) by (simp add: q_def)
  have ds: "vb_digits x [] = bl @ [x mod 128]"
    using assms(2) by (simp add: vb_digits_big bl_def q_def)
  have ne: "bl \<noteq> []" by (simp add: bl_def vb_digits_nonempty)
  then obtain bl' d where bl: "bl = bl' @ [d]" by (metis rev_exhaust)
  have rng: "\<forall>e \<in> set bl. 0 \<le> e" using vb_digits_range[of _ q] by (auto simp: bl_def)
  have hq: "horner 0 bl = q" using q by (simp add: bl_def horner_vb_digits)
  have h': "horner 0 bl = 128 * horner 0 bl' + d" by (simp add: bl horner_def)
  have s': "stretched w 0 bl = (128 * stretched w 0 bl' + d) * 128 ^ (w - 1)"
    by (simp add: bl stretched_def)
  have ge: "horner 0 bl' \<le> stretched w 0 bl'" using rng by (intro stretched_ge[THEN conjunct1]) (auto simp: bl)
  have pos: "1 \<le> 128 * horner 0 bl' + d" using hq h' q by simp
  have "(128::int) ^ 1 \<le> 128 ^ (w - 1)" using assms(1) by (intro power_increasing) auto
  then have p: "(128::int) \<le> 128 ^ (w - 1)" by simp
  have "q < (128 * horner 0 bl' + d) * 128" using pos hq h' by simp
  also have "\<dots> \<le> (128 * horner 0 bl' + d) * 128 ^ (w - 1)"
    using p pos by (intro mult_left_mono) auto
  also have "\<dots> \<le> (128 * stretched w 0 bl' + d) * 128 ^ (w - 1)"
    using ge by (intro mult_right_mono) auto
  finally have "q < stretched w 0 bl" by (simp add: s')
  moreover have "misread w x = 128 * stretched w 0 bl + x mod 128"
    by (simp add: misread_def ds)
  moreover have "x = 128 * q + x mod 128" by (simp add: q_def)
  ultimately show ?thesis by linarith
qed

section \<open>Properties of block inversion and of the merge\<close>

lemma counted_Nil: "counted [] []"
  by (simp add: counted_def)

lemma map_of_None_keys: "map_of d k = None \<longleftrightarrow> k \<notin> set (map fst d)"
  by (simp add: map_of_eq_None_iff)

lemma count_list_zero: "x \<notin> set xs \<Longrightarrow> count_list xs x = 0"
  by (induction xs) auto

lemma counted_step:
  assumes "counted td xs"
  shows "counted (count_pair td (t, d)) (xs @ [(t, d)])"
proof -
  define td1 where "td1 = (if t \<notin> set (dict_keys td) then AList.update t [] td else td)"
  define inner where "inner = dict_get td1 t []"
  define inner' where "inner' = AList.update d (dict_get inner d 0 + 1) inner"
  have cp: "count_pair td (t, d) = AList.update t inner' td1"
    by (simp add: count_pair_def td1_def inner_def inner'_def Let_def)
  have dist: "distinct (map fst td)" and keys: "set (map fst td) = fst ` set xs"
    and inn: "\<And>t i. map_of td t = Some i \<Longrightarrow>
        distinct (map fst i) \<and> set (map fst i) = {d. (t, d) \<in> set xs} \<and>
        (\<forall>d. (t, d) \<in> set xs \<longrightarrow> map_of i d = Some (int (count_list xs (t, d))))"
    using assms by (auto simp: counted_def)
  have mo1: "map_of td1 = (if t \<in> fst ` set xs then map_of td else (map_of td)(t \<mapsto> []))"
    using keys by (auto simp: td1_def dict_keys_def update_conv')
  have inner_props: "distinct (map fst inner) \<and> set (map fst inner) = {d. (t, d) \<in> set xs} \<and>
        (\<forall>d. (t, d) \<in> set xs \<longrightarrow> map_of inner d = Some (int (count_list xs (t, d))))"
  proof (cases "t \<in> fst ` set xs")
    case True
    then have "t \<in> set (map fst td)" using keys by simp
    then obtain i where i: "map_of td t = Some i"
      by (metis map_of_None_keys not_Some_eq)
    then have "inner = i" using True by (simp add: inner_def dict_get_def mo1)
    then show ?thesis using inn[OF i] by simp
  next
    case False
    then have "inner = []" by (simp add: inner_def dict_get_def mo1)
    then show ?thesis using False by (auto simp: image_iff) 
  qed
  have get: "dict_get inner d 0 = int (count_list xs (t, d))"
  proof (cases "(t, d) \<in> set xs")
    case True
    then show ?thesis using inner_props by (simp add: dict_get_def)
  next
    case False
    then have "d \<notin> set (map fst inner)" using inner_props by simp
    then have "map_of inner d = None" by (simp add: map_of_None_keys)
    then show ?thesis using False by (simp add: dict_get_def count_list_zero)
  qed
  have mo': "map_of inner' = (map_of inner)(d \<mapsto> int (count_list xs (t, d)) + 1)"
    by (simp add: inner'_def update_conv' get)
  have d1: "distinct (map fst td1)" using dist by (simp add: td1_def distinct_update)
  have k1: "set (map fst td1) = insert t (fst ` set xs)"
    using keys by (auto simp: td1_def dict_keys_def dom_update[unfolded dom_map_of_conv_image_fst] 
        dom_map_of_conv_image_fst[symmetric] update_conv')
  show ?thesis unfolding counted_def cp
  proof (intro conjI allI impI)
    show "distinct (map fst (AList.update t inner' td1))" using d1 by (simp add: distinct_update)
    show "set (map fst (AList.update t inner' td1)) = fst ` set (xs @ [(t, d)])"
      using k1 by (auto simp: dom_map_of_conv_image_fst[symmetric] update_conv')
  next
    fix s i assume a: "map_of (AList.update t inner' td1) s = Some i"
    show "distinct (map fst i)"
    proof (cases "s = t")
      case True
      then have "i = inner'" using a by (simp add: update_conv')
      then show ?thesis using inner_props by (simp add: inner'_def distinct_update)
    next
      case False
      then have "map_of td s = Some i" using a by (auto simp: update_conv' mo1 split: if_splits)
      then show ?thesis using inn by blast
    qed
    show "set (map fst i) = {d'. (s, d') \<in> set (xs @ [(t, d)])}"
    proof (cases "s = t")
      case True
      then have "i = inner'" using a by (simp add: update_conv')
      moreover have "set (map fst inner') = insert d (set (map fst inner))"
        using mo' by (metis dom_fun_upd dom_map_of_conv_image_fst list.set_map option.distinct(1))
      ultimately show ?thesis using inner_props True by auto
    next
      case False
      then have "map_of td s = Some i" using a by (auto simp: update_conv' mo1 split: if_splits)
      then show ?thesis using inn False by auto
    qed
  next
    fix s i d' assume a: "map_of (AList.update t inner' td1) s = Some i"
      and b: "(s, d') \<in> set (xs @ [(t, d)])"
    show "map_of i d' = Some (int (count_list (xs @ [(t, d)]) (s, d')))"
    proof (cases "s = t")
      case True
      then have i: "i = inner'" using a by (simp add: update_conv')
      show ?thesis
      proof (cases "d' = d")
        case True
        then show ?thesis using \<open>s = t\<close> by (simp add: i mo')
      next
        case False
        then have "(t, d') \<in> set xs" using b True by auto
        then show ?thesis using inner_props False True by (simp add: i mo')
      qed
    next
      case False
      then have "map_of td s = Some i" using a by (auto simp: update_conv' mo1 split: if_splits)
      moreover have "(s, d') \<in> set xs" using b False by auto
      ultimately show ?thesis using inn False by auto
    qed
  qed
qed

lemma counted_foldl: "counted (foldl count_pair [] xs) xs"
proof (induction xs rule: rev_induct)
  case Nil
  then show ?case by (simp add: counted_Nil)
next
  case (snoc x xs)
  then show ?case by (cases x) (simp add: counted_step)
qed

lemma foldl_append_term:
  "foldl (append_term td) index ts = index @ map (\<lambda>t. hd (append_term td [] t)) ts"
  by (induction ts arbitrary: index) (simp_all add: append_term_def Let_def)

lemma strict_sorted_unique:
  fixes xs ys :: "int list"
  assumes "sorted xs" "distinct xs" "sorted ys" "distinct ys" "set xs = set ys"
  shows "xs = ys"
  using assms by (metis sorted_distinct_set_unique)

lemma sort_keys_eq:
  fixes ks :: "int list"
  assumes "distinct ks" "set ks = set zs"
  shows "sort ks = sort (remdups zs)"
  by (rule strict_sorted_unique) (use assms in simp_all)

lemma write_to_index_eq: "write_to_index td_pairs index = index @ spec_inverted td_pairs"
proof -
  define td where "td = foldl count_pair [] td_pairs"
  have c: "counted td td_pairs" by (simp add: td_def counted_foldl)
  then have dist: "distinct (map fst td)" and keys: "set (map fst td) = fst ` set td_pairs"
    by (auto simp: counted_def)
  have ks: "sort (dict_keys td) = sort (remdups (map fst td_pairs))"
    unfolding dict_keys_def by (rule sort_keys_eq[OF dist]) (use keys in simp)
  have entry: "hd (append_term td [] t) =
      (t, spec_postings td_pairs t,
       map (\<lambda>d. int (count_list td_pairs (t, d))) (spec_postings td_pairs t))"
    if t: "t \<in> fst ` set td_pairs" for t
  proof -
    from t have "t \<in> set (map fst td)" using keys by simp
    then obtain inner where i: "map_of td t = Some inner"
      by (metis map_of_None_keys not_Some_eq)
    with c have id: "distinct (map fst inner)"
      and ik: "set (map fst inner) = {d. (t, d) \<in> set td_pairs}"
      and iv: "\<And>d. (t, d) \<in> set td_pairs \<Longrightarrow> map_of inner d = Some (int (count_list td_pairs (t, d)))"
      by (auto simp: counted_def)
    have g: "dict_get td t [] = inner" by (simp add: dict_get_def i)
    have ps: "sort (dict_keys inner) = spec_postings td_pairs t"
      unfolding dict_keys_def spec_postings_def
    proof (rule sort_keys_eq[OF id])
      have "set (map snd (filter (\<lambda>p. fst p = t) td_pairs)) = {d. (t, d) \<in> set td_pairs}"
        by (auto simp: image_iff)
      then show "set (map fst inner) = set (map snd (filter (\<lambda>p. fst p = t) td_pairs))"
        using ik by simp
    qed
    have tf: "map (\<lambda>d. dict_get inner d 0) (spec_postings td_pairs t)
            = map (\<lambda>d. int (count_list td_pairs (t, d))) (spec_postings td_pairs t)"
    proof (rule map_cong[OF refl])
      fix d assume "d \<in> set (spec_postings td_pairs t)"
      then have "(t, d) \<in> set td_pairs" by (auto simp: spec_postings_def)
      then show "dict_get inner d 0 = int (count_list td_pairs (t, d))"
        by (simp add: dict_get_def iv)
    qed
    show ?thesis by (simp add: append_term_def Let_def g ps tf)
  qed
  have "map (\<lambda>t. hd (append_term td [] t)) (sort (remdups (map fst td_pairs)))
      = spec_inverted td_pairs"
    unfolding spec_inverted_def by (rule map_cong[OF refl]) (simp add: entry)
  then show ?thesis
    by (simp add: write_to_index_def td_def[symmetric] Let_def foldl_append_term ks)
qed

lemma sorted_wrt_less_sort_remdups:
  fixes xs :: "int list"
  shows "sorted_wrt (<) (sort (remdups xs))"
  by (simp add: strict_sorted_iff)

lemma count_list_pos: "x \<in> set xs \<Longrightarrow> 0 < count_list xs x"
  by (induction xs) auto

lemma least_head_all_empty: "\<forall>r \<in> set its. r = [] \<Longrightarrow> least_head i its = None"
  by (induction i its rule: least_head.induct) simp_all

lemma heapq_merge_all_empty: "\<forall>r \<in> set its. r = [] \<Longrightarrow> heapq_merge its = []"
  by (subst heapq_merge.simps) (simp add: least_head_all_empty)

lemma heapq_merge_left: "heapq_merge [A, []] = A"
proof (induction A)
  case Nil
  then show ?case by (simp add: heapq_merge_all_empty)
next
  case (Cons a A)
  then show ?case by (subst heapq_merge.simps) simp
qed

lemma heapq_merge_right: "heapq_merge [[], B] = B"
proof (induction B)
  case Nil
  then show ?case by (simp add: heapq_merge_all_empty)
next
  case (Cons b B)
  then show ?case by (subst heapq_merge.simps) simp
qed

lemma heapq_merge_two: "heapq_merge [A, B] = merge2 A B"
proof (induction A B rule: merge2.induct)
  case (1 B)
  then show ?case by (simp add: heapq_merge_right)
next
  case (2 a A)
  then show ?case by (simp add: heapq_merge_left)
next
  case (3 a A b B)
  then show ?case by (subst heapq_merge.simps) simp
qed

lemma foldl_merge_step:
  "(case foldl merge_step (acc, w) M of (acc', w') \<Rightarrow> w' @ [acc']) = w @ groupM acc M"
  by (induction M arbitrary: acc w) (simp_all add: merge_step_def)

lemma fst_combine [simp]: "fst (combine a b) = fst a"
  by (cases a, cases b) (simp add: combine_def Let_def)

lemma groupM_fresh:
  "\<forall>x \<in> set M. fst acc < fst x \<Longrightarrow> groupM acc M = acc # (case M of [] \<Rightarrow> [] | x # M' \<Rightarrow> groupM x M')"
  by (cases M) auto

lemma groupM_sorted:
  "sorted_wrt (<) (map fst (x # M)) \<Longrightarrow> groupM x M = x # M"
  by (induction M arbitrary: x) auto

lemma set_merge2 [simp]: "set (merge2 A B) = set A \<union> set B"
  by (induction A B rule: merge2.induct) auto

lemma groupL_merge2:
  "sorted_wrt (<) (map fst A) \<Longrightarrow> sorted_wrt (<) (map fst B) \<Longrightarrow>
   groupL (merge2 A B) = spec_merged A B"
proof (induction A B rule: spec_merged.induct)
  case (1 B)
  then show ?case by (cases B) (simp_all add: groupL_def groupM_sorted)
next
  case (2 a A)
  then show ?case by (simp add: groupL_def groupM_sorted)
next
  case (3 a A b B)
  have sA: "sorted_wrt (<) (map fst A)" and sB: "sorted_wrt (<) (map fst B)"
    and gA: "\<forall>x \<in> set A. fst a < fst x" and gB: "\<forall>x \<in> set B. fst b < fst x"
    using "3.prems" by auto
  consider "fst a < fst b" | "fst b < fst a" | "fst a = fst b" by linarith
  then show ?case
  proof cases
    case 1
    have "\<forall>x \<in> set (merge2 A (b # B)). fst a < fst x" using gA gB 1 by auto
    then have "groupM a (merge2 A (b # B)) = a # groupL (merge2 A (b # B))"
      unfolding groupL_def by (rule groupM_fresh)
    then show ?thesis using 1 "3.IH"(1)[OF 1 sA "3.prems"(2)] by (simp add: groupL_def)
  next
    case 2
    have "\<forall>x \<in> set (merge2 (a # A) B). fst b < fst x" using gA gB 2 by auto
    then have "groupM b (merge2 (a # A) B) = b # groupL (merge2 (a # A) B)"
      unfolding groupL_def by (rule groupM_fresh)
    then show ?thesis using 2 "3.IH"(2)[OF _ 2 "3.prems"(1) sB] by (simp add: groupL_def)
  next
    case 3
    have m: "merge2 A (b # B) = b # merge2 A B"
      using gA 3 by (cases A) auto
    have "\<forall>x \<in> set (merge2 A B). fst (combine a b) < fst x" using gA gB 3 by auto
    then have "groupM (combine a b) (merge2 A B) = combine a b # groupL (merge2 A B)"
      unfolding groupL_def by (rule groupM_fresh)
    then show ?thesis using 3 "3.IH"(3)[OF _ _ sA sB] by (simp add: groupL_def m)
  qed
qed

lemma merge_index_two_eq:
  assumes "sorted_wrt (<) (map fst A)" "sorted_wrt (<) (map fst B)"
  shows "merge_index [A, B] w =
     (if A = [] \<and> B = [] then (Some StopIteration, w) else (None, w @ spec_merged A B))"
proof (cases "merge2 A B")
  case Nil
  then have "set A \<union> set B = {}" by (metis set_merge2 set_empty)
  then show ?thesis using Nil by (simp add: merge_index_def heapq_merge_two)
next
  case (Cons x M)
  then have ne: "\<not> (A = [] \<and> B = [])" by auto
  have "groupM x M = spec_merged A B"
    using groupL_merge2[OF assms] Cons by (simp add: groupL_def)
  then show ?thesis using ne Cons foldl_merge_step[of x w M]
    by (auto simp add: merge_index_def heapq_merge_two split: prod.splits)
qed

lemma keys_spec_merged: "fst ` set (spec_merged A B) = fst ` set A \<union> fst ` set B"
  by (induction A B rule: spec_merged.induct) auto

lemma sorted_spec_merged:
  "sorted_wrt (<) (map fst A) \<Longrightarrow> sorted_wrt (<) (map fst B) \<Longrightarrow>
   sorted_wrt (<) (map fst (spec_merged A B))"
proof (induction A B rule: spec_merged.induct)
  case (3 a A b B)
  have sA: "sorted_wrt (<) (map fst A)" and sB: "sorted_wrt (<) (map fst B)"
    and gA: "\<forall>x \<in> set A. fst a < fst x" and gB: "\<forall>x \<in> set B. fst b < fst x"
    using "3.prems" by auto
  consider "fst a < fst b" | "fst b < fst a" | "fst a = fst b" by linarith
  then show ?case
  proof cases
    case 1
    have "\<forall>k \<in> fst ` set (spec_merged A (b # B)). fst a < k"
      unfolding keys_spec_merged using gA gB 1 by auto
    then show ?thesis using 1 "3.IH"(1)[OF 1 sA "3.prems"(2)] by simp
  next
    case 2
    have "\<forall>k \<in> fst ` set (spec_merged (a # A) B). fst b < k"
      unfolding keys_spec_merged using gA gB 2 by auto
    then show ?thesis using 2 "3.IH"(2)[OF _ 2 "3.prems"(1) sB] by simp
  next
    case 3
    have "\<forall>k \<in> fst ` set (spec_merged A B). fst a < k"
      unfolding keys_spec_merged using gA gB 3 by auto
    then show ?thesis using 3 "3.IH"(3)[OF _ _ sA sB] by simp
  qed
qed simp_all

lemma spec_merged_both:
  "sorted_wrt (<) (map fst A) \<Longrightarrow> sorted_wrt (<) (map fst B) \<Longrightarrow>
   x \<in> set A \<Longrightarrow> y \<in> set B \<Longrightarrow> fst x = fst y \<Longrightarrow> combine x y \<in> set (spec_merged A B)"
proof (induction A B rule: spec_merged.induct)
  case (3 a A b B)
  have sA: "sorted_wrt (<) (map fst A)" and sB: "sorted_wrt (<) (map fst B)"
    and gA: "\<forall>x \<in> set A. fst a < fst x" and gB: "\<forall>x \<in> set B. fst b < fst x"
    using "3.prems" by auto
  consider "fst a < fst b" | "fst b < fst a" | "fst a = fst b" by linarith
  then show ?case
  proof cases
    case 1
    have "x \<noteq> a" using 1 gB "3.prems"(4,5) by force
    then have "x \<in> set A" using "3.prems"(3) by simp
    then show ?thesis using 1 "3.IH"(1)[OF 1 sA "3.prems"(2) _ "3.prems"(4,5)] by simp
  next
    case 2
    have "y \<noteq> b" using 2 gA "3.prems"(3,5) by force
    then have "y \<in> set B" using "3.prems"(4) by simp
    then show ?thesis using 2 "3.IH"(2)[OF _ 2 "3.prems"(1) sB "3.prems"(3) _ "3.prems"(5)] by simp
  next
    case 3
    show ?thesis
    proof (cases "x = a")
      case True
      then have "y = b" using 3 gB "3.prems"(4,5) by force
      then show ?thesis using True 3 by simp
    next
      case False
      then have xA: "x \<in> set A" using "3.prems"(3) by simp
      then have "y \<noteq> b" using 3 gA "3.prems"(5) by force
      then have "y \<in> set B" using "3.prems"(4) by simp
      then show ?thesis using 3 "3.IH"(3)[OF _ _ sA sB xA _ "3.prems"(5)] by simp
    qed
  qed
qed simp_all

lemma spec_merged_left:
  "x \<in> set A \<Longrightarrow> fst x \<notin> fst ` set B \<Longrightarrow> x \<in> set (spec_merged A B)"
  by (induction A B rule: spec_merged.induct) auto

lemma spec_merged_right:
  "y \<in> set B \<Longrightarrow> fst y \<notin> fst ` set A \<Longrightarrow> y \<in> set (spec_merged A B)"
  by (induction A B rule: spec_merged.induct) auto

lemma set_merge_posts:
  "fst ` set xs \<inter> fst ` set ys = {} \<Longrightarrow>
   set (merge_and_sort_posts_and_tfs xs ys) = set xs \<union> set ys"
proof (induction xs ys rule: merge_and_sort_posts_and_tfs.induct)
  case (3 d1 f1 xs d2 f2 ys)
  have ne: "d1 \<noteq> d2" using "3.prems" by auto
  show ?case
  proof (cases "d1 < d2")
    case True
    have "fst ` set xs \<inter> fst ` set ((d2, f2) # ys) = {}" using "3.prems" by auto
    then show ?thesis using True "3.IH"(1) by auto
  next
    case False
    then have lt: "d2 < d1" using ne by simp
    have "fst ` set ((d1, f1) # xs) \<inter> fst ` set ys = {}" using "3.prems" by auto
    then show ?thesis using False lt "3.IH"(2) by auto
  qed
qed simp_all

lemma sorted_merge_posts:
  "sorted_wrt (<) (map fst xs) \<Longrightarrow> sorted_wrt (<) (map fst ys) \<Longrightarrow>
   fst ` set xs \<inter> fst ` set ys = {} \<Longrightarrow>
   sorted_wrt (<) (map fst (merge_and_sort_posts_and_tfs xs ys))"
proof (induction xs ys rule: merge_and_sort_posts_and_tfs.induct)
  case (3 d1 f1 xs d2 f2 ys)
  have ne: "d1 \<noteq> d2" using "3.prems" by auto
  have sx: "sorted_wrt (<) (map fst xs)" and sy: "sorted_wrt (<) (map fst ys)"
    and gx: "\<forall>x \<in> set xs. d1 < fst x" and gy: "\<forall>y \<in> set ys. d2 < fst y"
    using "3.prems" by auto
  show ?case
  proof (cases "d1 < d2")
    case True
    have dj: "fst ` set xs \<inter> fst ` set ((d2, f2) # ys) = {}" using "3.prems" by auto
    have "\<forall>z \<in> set (merge_and_sort_posts_and_tfs xs ((d2, f2) # ys)). d1 < fst z"
      unfolding set_merge_posts[OF dj] using gx gy True by auto
    then show ?thesis using True "3.IH"(1)[OF True sx "3.prems"(2) dj] by simp
  next
    case False
    then have lt: "d2 < d1" using ne by simp
    have dj: "fst ` set ((d1, f1) # xs) \<inter> fst ` set ys = {}" using "3.prems" by auto
    have "\<forall>z \<in> set (merge_and_sort_posts_and_tfs ((d1, f1) # xs) ys). d2 < fst z"
      unfolding set_merge_posts[OF dj] using gx gy lt by auto
    then show ?thesis using False lt "3.IH"(2)[OF False lt "3.prems"(1) sy dj] by simp
  qed
qed simp_all

lemma combine_disjoint:
  assumes "sorted_wrt (<) pa" "length fa = length pa" "sorted_wrt (<) pb" "length fb = length pb"
    "set pa \<inter> set pb = {}"
  shows "\<exists>f. combine (t, pa, fa) (t', pb, fb) = (t, sort (pa @ pb), f) \<and>
             length f = length pa + length pb \<and>
             set (zip (sort (pa @ pb)) f) = set (zip pa fa) \<union> set (zip pb fb)"
proof -
  define z where "z = merge_and_sort_posts_and_tfs (zip pa fa) (zip pb fb)"
  have ka: "map fst (zip pa fa) = pa" and kb: "map fst (zip pb fb) = pb"
    using assms(2,4) by simp_all
  have dj: "fst ` set (zip pa fa) \<inter> fst ` set (zip pb fb) = {}"
    using assms(5) ka kb by (metis list.set_map)
  have sz: "sorted_wrt (<) (map fst z)"
    unfolding z_def by (rule sorted_merge_posts) (simp_all add: ka kb assms dj)
  have setz: "set z = set (zip pa fa) \<union> set (zip pb fb)"
    unfolding z_def by (rule set_merge_posts[OF dj])
  have "set (map fst z) = set pa \<union> set pb"
    using setz ka kb by (metis image_Un list.set_map)
  moreover have "distinct (pa @ pb)"
    using assms(1,3,5) by (simp add: strict_sorted_iff)
  ultimately have p: "map fst z = sort (pa @ pb)"
    using sz by (intro sorted_distinct_set_unique) (simp_all add: strict_sorted_iff)
  have "length z = length pa + length pb"
    using p by (metis length_append length_map length_sort)
  moreover have "zip (map fst z) (map snd z) = z" by (simp add: zip_map_fst_snd)
  ultimately show ?thesis
    using p setz by (intro exI[of _ "map snd z"]) (simp add: combine_def z_def[symmetric] Let_def)
qed

section \<open>Properties of retrieval\<close>

lemma bm25_postings_eq:
  "\<forall>(d, tf) \<in> set ps. 1 \<le> tf \<Longrightarrow>
   bm25_postings idf sc ps = Inr (foldl (tfidf_posting idf) sc ps)"
proof (induction ps arbitrary: sc)
  case Nil
  then show ?case by simp
next
  case (Cons p ps)
  obtain d tf where p: "p = (d, tf)" by (cases p)
  have tf: "1 \<le> tf" using Cons.prems p by simp
  have "bm25_postings idf sc (p # ps) =
        bm25_postings idf (AList.update d (dict_get sc d 0 + (1 + log 10 (real_of_int tf)) * idf) sc) ps"
    using tf by (simp add: p math_log10_def)
  also have "\<dots> = Inr (foldl (tfidf_posting idf)
        (AList.update d (dict_get sc d 0 + (1 + log 10 (real_of_int tf)) * idf) sc) ps)"
    using Cons.prems by (intro Cons.IH) simp
  also have "AList.update d (dict_get sc d 0 + (1 + log 10 (real_of_int tf)) * idf) sc
      = tfidf_posting idf sc p"
    using tf by (simp add: tfidf_posting_def p mult.commute)
  finally show ?case by simp
qed

lemma get_postings_list_cases:
  "get_postings_list r t = (p, f) \<Longrightarrow> (p = [] \<and> f = []) \<or> (t, p, f) \<in> set (terms r)"
  by (auto simp: get_postings_list_def split: option.splits dest: map_of_SomeD)

lemma tfidf_terms_loop: "tfidf_terms r N qs m sc = terms_loop tfidf_inner r N qs m sc"
  by (induction qs arbitrary: m sc) (simp_all add: tfidf_inner_def Let_def split: prod.splits sum.splits)

lemma bm25_terms_loop: "bm25_terms r N qs m sc = terms_loop bm25_postings r N qs m sc"
  by (induction qs arbitrary: m sc) (simp_all add: Let_def split: prod.splits sum.splits)

lemma terms_loop_cong:
  assumes "\<And>t p f idf sc. (t, p, f) \<in> set (terms r) \<Longrightarrow> inner idf sc (zip p f) = inner' idf sc (zip p f)"
  shows "terms_loop inner r N qs m sc = terms_loop inner' r N qs m sc"
proof (induction qs arbitrary: m sc)
  case Nil
  then show ?case by simp
next
  case (Cons q qs)
  obtain tid m' where g: "IdMap_get_id m q = (tid, m')" by (cases "IdMap_get_id m q")
  obtain p f where pf: "get_postings_list r tid = (p, f)" by (cases "get_postings_list r tid")
  show ?case
  proof (cases "p = []")
    case True
    then show ?thesis using Cons.IH by (simp add: g pf)
  next
    case False
    then have "(tid, p, f) \<in> set (terms r)" using get_postings_list_cases[OF pf] by simp
    then have "inner idf sc (zip p f) = inner' idf sc (zip p f)" for idf by (rule assms)
    then show ?thesis using Cons.IH by (simp add: g pf split: sum.splits)
  qed
qed

lemma first_index_None: "first_index m s = None \<longleftrightarrow> s \<notin> set m"
  by (induction m) auto

lemma first_index_Some: "first_index m s = Some i \<Longrightarrow> i < length m \<and> m ! i = s"
  by (induction m arbitrary: i) (auto split: if_splits)

lemma first_index_append:
  "first_index (m @ e) s =
     (case first_index m s of Some i \<Rightarrow> Some i
      | None \<Rightarrow> map_option (\<lambda>j. length m + j) (first_index e s))"
  by (induction m) (cases "first_index e s"; auto split: option.splits)+

lemma first_index_mem: "first_index m s = Some i \<Longrightarrow> s \<in> set m"
  using first_index_None[of m s] by auto

lemma IdMap_get_id_frame:
  "IdMap_get_id m s = (tid, m') \<Longrightarrow> m' = (if s \<in> set m then m else m @ [s])"
  by (auto simp: IdMap_get_id_def first_index_None split: option.splits dest: first_index_mem)

lemma get_postings_list_unknown:
  "known_terms r m0 \<Longrightarrow> int (length m0) \<le> tid \<Longrightarrow> get_postings_list r tid = ([], [])"
proof -
  assume k: "known_terms r m0" and t: "int (length m0) \<le> tid"
  have "tid \<notin> fst ` set (terms r)" using k t by (auto simp: known_terms_def)
  then have "map_of (terms r) tid = None" by (simp add: map_of_eq_None_iff)
  then show ?thesis by (simp add: get_postings_list_def)
qed

lemma lookup_extended:
  assumes "known_terms r m0" "IdMap_get_id (m0 @ extra) term = (tid, m')"
  shows "get_postings_list r tid = vocab_postings r m0 term \<and>
         (\<exists>extra'. m' = m0 @ extra')"
proof (cases "first_index m0 term")
  case None
  have "int (length m0) \<le> tid"
    using assms(2) None
    by (auto simp: IdMap_get_id_def first_index_append split: option.splits)
  then have "get_postings_list r tid = ([], [])" by (rule get_postings_list_unknown[OF assms(1)])
  moreover have "\<exists>extra'. m' = m0 @ extra'"
    using assms(2) by (auto simp: IdMap_get_id_def split: option.splits)
  ultimately show ?thesis by (simp add: vocab_postings_def None)
next
  case (Some i)
  then have "tid = int i" "m' = m0 @ extra"
    using assms(2) by (auto simp: IdMap_get_id_def first_index_append)
  then show ?thesis by (auto simp: vocab_postings_def Some)
qed

lemma loop_pure:
  assumes "known_terms r m0"
  shows "fst (terms_loop inner r N qs (m0 @ extra) sc) = pure_loop inner r m0 N qs sc"
proof (induction qs arbitrary: extra sc)
  case Nil
  then show ?case by simp
next
  case (Cons q qs)
  obtain tid m' where g: "IdMap_get_id (m0 @ extra) q = (tid, m')"
    by (cases "IdMap_get_id (m0 @ extra) q")
  from lookup_extended[OF assms g] obtain extra' where
    p: "get_postings_list r tid = vocab_postings r m0 q" and m': "m' = m0 @ extra'" by blast
  obtain ps fs where v: "vocab_postings r m0 q = (ps, fs)" by (cases "vocab_postings r m0 q")
  show ?case using Cons.IH[of extra'] by (simp add: g p v m' split: sum.splits)
qed

lemma loop_frame:
  "\<exists>new. snd (terms_loop inner r N qs m sc) = m @ new \<and> set new \<subseteq> set qs - set m"
proof (induction qs arbitrary: m sc)
  case Nil
  then show ?case by simp
next
  case (Cons q qs)
  obtain tid m' where g: "IdMap_get_id m q = (tid, m')" by (cases "IdMap_get_id m q")
  have m': "m' = (if q \<in> set m then m else m @ [q])" by (rule IdMap_get_id_frame[OF g])
  obtain ps fs where v: "get_postings_list r tid = (ps, fs)" by (cases "get_postings_list r tid")
  have step: "\<exists>new. m' = m @ new \<and> set new \<subseteq> set (q # qs) - set m"
    using m' by (cases "q \<in> set m") auto
  have rec: "\<exists>new. snd (terms_loop inner r N qs m' sc') = m @ new \<and> set new \<subseteq> set (q # qs) - set m" for sc'
  proof -
    from Cons.IH[of m' sc'] obtain new where
      n: "snd (terms_loop inner r N qs m' sc') = m' @ new" "set new \<subseteq> set qs - set m'" by blast
    show ?thesis
    proof (cases "q \<in> set m")
      case True
      then show ?thesis using n m' by auto
    next
      case False
      then have "snd (terms_loop inner r N qs m' sc') = m @ (q # new)" using n m' by simp
      moreover have "set (q # new) \<subseteq> set (q # qs) - set m" using n m' False by auto
      ultimately show ?thesis by blast
    qed
  qed
  show ?case using step rec by (simp add: g v split: sum.splits)
qed


lemma pure_filter:
  "pure_loop inner r m0 N qs sc = pure_loop inner r m0 N (filter (\<lambda>t. t \<in> set m0) qs) sc"
proof (induction qs arbitrary: sc)
  case Nil
  then show ?case by simp
next
  case (Cons q qs)
  show ?case
  proof (cases "q \<in> set m0")
    case True
    then show ?thesis using Cons.IH by (simp split: prod.splits sum.splits)
  next
    case False
    then have "vocab_postings r m0 q = ([], [])"
      by (simp add: vocab_postings_def first_index_None[THEN iffD2])
    then show ?thesis using False Cons.IH by simp
  qed
qed

lemma pure_all_oov:
  "\<forall>t \<in> set qs. t \<notin> set m0 \<Longrightarrow> pure_loop inner r m0 N qs sc = Inr sc"
proof -
  assume "\<forall>t \<in> set qs. t \<notin> set m0"
  then have "filter (\<lambda>t. t \<in> set m0) qs = []" by (simp add: filter_empty_conv)
  then show ?thesis using pure_filter[of inner r m0 N qs sc] by simp
qed

lemma top_k_empty: "top_k dmap [] k = Inr []"
  by (simp add: top_k_def sorted_by_score_reverse_def slice_to_def)

lemma bm25_terms_eq:
  assumes "\<forall>(t, p, f) \<in> set (terms r). \<forall>tf \<in> set f. 1 \<le> tf"
  shows "bm25_terms r N qs m sc = tfidf_terms r N qs m sc"
proof -
  have "bm25_postings idf s (zip p f) = tfidf_inner idf s (zip p f)"
    if "(t, p, f) \<in> set (terms r)" for t p f idf s
  proof -
    have "\<forall>tf \<in> set f. 1 \<le> tf" using assms that by auto
    then have "\<forall>(d, tf) \<in> set (zip p f). 1 \<le> tf" by (auto dest: set_zip_rightD)
    then show ?thesis unfolding tfidf_inner_def by (rule bm25_postings_eq)
  qed
  then have "terms_loop bm25_postings r N qs m sc = terms_loop tfidf_inner r N qs m sc"
    by (rule terms_loop_cong)
  then show ?thesis by (simp add: bm25_terms_loop tfidf_terms_loop)
qed

lemmas eval_defs = retrieve_tfidf_def retrieve_bm25_def IdMap_get_id_def get_postings_list_def
    math_log10_def tfidf_posting_def top_k_def sorted_by_score_reverse_def slice_to_def
    IdMap_get_str_def dict_get_def

lemma finish_fst:
  "fst (case lp of (Inl e, m) \<Rightarrow> (Inl e, g m) | (Inr s, m) \<Rightarrow> (h s, g m)) =
     (case fst lp of Inl e \<Rightarrow> Inl e | Inr s \<Rightarrow> h s)"
  by (cases lp; cases "fst lp") auto

lemma finish_snd:
  "snd (case lp of (Inl e, m) \<Rightarrow> (Inl e, g m) | (Inr s, m) \<Rightarrow> (h s, g m)) = g (snd lp)"
  by (cases lp; cases "fst lp") auto

lemma retrieve_tfidf_fst:
  "known_terms r (term_id_map self) \<Longrightarrow>
   fst (retrieve_tfidf pre r self query k) =
     (case pure_loop tfidf_inner r (term_id_map self) (length (doc_length r)) (pre query) [] of
        Inl e \<Rightarrow> Inl e | Inr scores \<Rightarrow> top_k (doc_id_map self) scores k)"
  using loop_pure[of r "term_id_map self" tfidf_inner "length (doc_length r)" "pre query" "[]" "[]"]
  by (simp add: retrieve_tfidf_def tfidf_terms_loop finish_fst)

lemma retrieve_bm25_fst:
  "known_terms r (term_id_map self) \<Longrightarrow>
   fst (retrieve_bm25 pre r self query k k1 b) =
     (case pure_loop bm25_postings r (term_id_map self) (length (doc_length r)) (pre query) [] of
        Inl e \<Rightarrow> Inl e | Inr scores \<Rightarrow> top_k (doc_id_map self) scores k)"
  using loop_pure[of r "term_id_map self" bm25_postings "length (doc_length r)" "pre query" "[]" "[]"]
  by (simp add: retrieve_bm25_def bm25_terms_loop finish_fst)

lemma retrieve_tfidf_snd:
  "snd (retrieve_tfidf pre r self query k) =
     self\<lparr>term_id_map :=
       snd (terms_loop tfidf_inner r (length (doc_length r)) (pre query) (term_id_map self) [])\<rparr>"
  by (simp add: retrieve_tfidf_def tfidf_terms_loop finish_snd)

lemma retrieve_bm25_snd:
  "snd (retrieve_bm25 pre r self query k k1 b) =
     self\<lparr>term_id_map :=
       snd (terms_loop bm25_postings r (length (doc_length r)) (pre query) (term_id_map self) [])\<rparr>"
  by (simp add: retrieve_bm25_def bm25_terms_loop finish_snd)




lemma dict_get_update:
  "dict_get (AList.update k v d) k' dflt = (if k' = k then v else dict_get d k' dflt)"
  by (simp add: dict_get_def update_conv')

lemma keys_update: "set (map fst (AList.update k v d)) = insert k (set (map fst d))"
  using dom_update[of k v d] by (simp add: dom_map_of_conv_image_fst)

lemma tfidf_posting_eq:
  "tfidf_posting idf sc (d, tf) = AList.update d (dict_get sc d 0 + idf * tfidf_weight tf) sc"
  by (simp add: tfidf_posting_def tfidf_weight_def)

lemma inner_scores:
  "distinct (map fst sc) \<Longrightarrow>
   distinct (map fst (foldl (tfidf_posting idf) sc ps)) \<and>
   set (map fst (foldl (tfidf_posting idf) sc ps)) = set (map fst sc) \<union> fst ` set ps \<and>
   (\<forall>d. dict_get (foldl (tfidf_posting idf) sc ps) d 0 =
         dict_get sc d 0 + (\<Sum>(d', tf) \<leftarrow> ps. if d' = d then idf * tfidf_weight tf else 0))"
proof (induction ps arbitrary: sc)
  case Nil
  then show ?case by simp
next
  case (Cons p ps)
  obtain d0 tf where p: "p = (d0, tf)" by (cases p)
  define sc1 where "sc1 = tfidf_posting idf sc p"
  have d1: "distinct (map fst sc1)"
    using Cons.prems by (simp add: sc1_def p tfidf_posting_eq distinct_update)
  have k1: "set (map fst sc1) = insert d0 (set (map fst sc))"
    unfolding sc1_def p tfidf_posting_eq by (rule keys_update)
  have g1: "dict_get sc1 d 0 = dict_get sc d 0 + (if d0 = d then idf * tfidf_weight tf else 0)" for d
    by (auto simp: sc1_def p tfidf_posting_eq dict_get_update)
  have f: "foldl (tfidf_posting idf) sc (p # ps) = foldl (tfidf_posting idf) sc1 ps"
    by (simp add: sc1_def)
  have s: "(\<Sum>(d', tf) \<leftarrow> p # ps. if d' = d then idf * tfidf_weight tf else 0) =
      (if d0 = d then idf * tfidf_weight tf else 0) +
      (\<Sum>(d', tf) \<leftarrow> ps. if d' = d then idf * tfidf_weight tf else 0)" for d
    by (simp add: p)
  have k: "set (map fst sc1) \<union> fst ` set ps = set (map fst sc) \<union> fst ` set (p # ps)"
    using k1 by (auto simp: p)
  show ?case unfolding f s using Cons.IH[OF d1] k by (simp add: g1 add.assoc)
qed

lemma vocab_postings_cases:
  "vocab_postings r m0 term = (p, f) \<Longrightarrow> (p = [] \<and> f = []) \<or> (\<exists>t. (t, p, f) \<in> set (terms r))"
  by (auto simp: vocab_postings_def split: option.splits dest: get_postings_list_cases)

lemma idf_defined:
  assumes "docs_have_length r" "vocab_postings r m0 term = (p, f)" "p \<noteq> []"
  shows "math_log10 (real (length (doc_length r)) / real (length p)) =
         Inr (log 10 (real (length (doc_length r)) / real (length p)))"
proof -
  obtain t where "(t, p, f) \<in> set (terms r)" using vocab_postings_cases[OF assms(2)] assms(3) by auto
  then have "set p \<subseteq> fst ` set (doc_length r)" using assms(1) by (auto simp: docs_have_length_def)
  then have "doc_length r \<noteq> []" using assms(3) by (cases p) auto
  then have "0 < real (length (doc_length r)) / real (length p)" using assms(3) by simp
  then show ?thesis by (simp add: math_log10_def)
qed

lemma matching_docs_Cons:
  "vocab_postings r m0 q = (p, f) \<Longrightarrow>
   matching_docs r m0 (q # qs) = fst ` set (zip p f) \<union> matching_docs r m0 qs"
  by (simp add: matching_docs_def)

lemma spec_score_Cons:
  "spec_score r m0 N (q # qs) d = term_score r m0 N q d + spec_score r m0 N qs d"
  by (simp add: spec_score_def)

lemma pure_scores:
  assumes "docs_have_length r" "N = length (doc_length r)"
  shows "distinct (map fst sc) \<Longrightarrow>
   \<exists>sc'. pure_loop tfidf_inner r m0 N qs sc = Inr sc' \<and>
     distinct (map fst sc') \<and>
     set (map fst sc') = set (map fst sc) \<union> matching_docs r m0 qs \<and>
     (\<forall>d. dict_get sc' d 0 = dict_get sc d 0 + spec_score r m0 N qs d)"
proof (induction qs arbitrary: sc)
  case Nil
  then show ?case by (simp add: matching_docs_def spec_score_def)
next
  case (Cons q qs)
  obtain p f where v: "vocab_postings r m0 q = (p, f)" by (cases "vocab_postings r m0 q")
  note md = matching_docs_Cons[OF v, of qs]
  show ?case
  proof (cases "p = []")
    case True
    have ts: "term_score r m0 N q d = 0" for d by (simp add: term_score_def v True)
    have pl: "pure_loop tfidf_inner r m0 N (q # qs) sc = pure_loop tfidf_inner r m0 N qs sc"
      by (simp add: v True)
    have md': "matching_docs r m0 (q # qs) = matching_docs r m0 qs"
      unfolding md by (simp add: True)
    show ?thesis unfolding pl md' spec_score_Cons ts using Cons.IH[OF Cons.prems] by simp
  next
    case False
    define idf where "idf = log 10 (real N / real (length p))"
    define sc1 where "sc1 = foldl (tfidf_posting idf) sc (zip p f)"
    have l: "math_log10 (real N / real (length p)) = Inr idf"
      unfolding idf_def assms(2) by (rule idf_defined[OF assms(1) v False])
    from inner_scores[OF Cons.prems, of idf "zip p f"] have
      d1: "distinct (map fst sc1)"
      and k1: "set (map fst sc1) = set (map fst sc) \<union> fst ` set (zip p f)"
      and g1: "\<And>d. dict_get sc1 d 0 =
         dict_get sc d 0 + (\<Sum>(d', tf) \<leftarrow> zip p f. if d' = d then idf * tfidf_weight tf else 0)"
      by (simp_all add: sc1_def)
    have ts: "term_score r m0 N q d =
        (\<Sum>(d', tf) \<leftarrow> zip p f. if d' = d then idf * tfidf_weight tf else 0)" for d
      using False unfolding term_score_def v idf_def by simp
    have pl: "pure_loop tfidf_inner r m0 N (q # qs) sc = pure_loop tfidf_inner r m0 N qs sc1"
      using False by (simp add: v l tfidf_inner_def sc1_def)
    from Cons.IH[OF d1] obtain sc' where sc':
      "pure_loop tfidf_inner r m0 N qs sc1 = Inr sc'" "distinct (map fst sc')"
      "set (map fst sc') = set (map fst sc1) \<union> matching_docs r m0 qs"
      "\<forall>d. dict_get sc' d 0 = dict_get sc1 d 0 + spec_score r m0 N qs d" by blast
    have "set (map fst sc') = set (map fst sc) \<union> matching_docs r m0 (q # qs)"
      unfolding sc'(3) k1 md by (simp add: Un_assoc)
    moreover have "\<forall>d. dict_get sc' d 0 = dict_get sc d 0 + spec_score r m0 N (q # qs) d"
      unfolding spec_score_Cons ts using sc'(4) g1 by (simp add: add.assoc)
    ultimately show ?thesis unfolding pl using sc'(1,2) by blast
  qed
qed

lemma ranked_props:
  fixes sc :: "(int \<times> real) list"
  assumes "distinct (map fst sc)" "0 \<le> k"
  defines "ranked \<equiv> slice_to k (sorted_by_score_reverse sc)"
  shows "distinct (map fst ranked)" "set ranked \<subseteq> set sc"
    "length ranked = min (nat k) (length sc)"
    "sorted_wrt (\<lambda>x y. snd y \<le> snd x) ranked"
    "\<forall>x \<in> set sc - set ranked. \<forall>y \<in> set ranked. snd x \<le> snd y"
proof -
  define ys where "ys = sort_key (\<lambda>x. - snd x) sc"
  have r: "ranked = take (nat k) ys"
    using assms(2) by (simp add: ranked_def slice_to_def sorted_by_score_reverse_def ys_def)
  have sy: "set ys = set sc" and ly: "length ys = length sc" by (simp_all add: ys_def)
  have dy: "distinct (map fst ys)"
  proof -
    have "distinct sc" "inj_on fst (set sc)" using assms(1) by (simp_all add: distinct_map)
    then have "distinct ys" "inj_on fst (set ys)" by (simp_all add: ys_def)
    then show ?thesis by (simp add: distinct_map)
  qed
  have so: "sorted (map (\<lambda>x. - snd x) ys)" by (simp add: ys_def)
  show "distinct (map fst ranked)" unfolding r using dy by (simp add: take_map[symmetric])
  show "set ranked \<subseteq> set sc" unfolding r using sy set_take_subset by fast
  show "length ranked = min (nat k) (length sc)" unfolding r by (simp add: ly min.commute)
  have "sorted (map (\<lambda>x. - snd x) (take (nat k) ys))"
    using so by (simp add: take_map[symmetric] sorted_wrt_take)
  then show "sorted_wrt (\<lambda>x y. snd y \<le> snd x) ranked"
    unfolding r by (simp add: sorted_wrt_map)
  have "sorted (map (\<lambda>x. - snd x) (take (nat k) ys) @ map (\<lambda>x. - snd x) (drop (nat k) ys))"
    using so by (simp add: map_append[symmetric] del: map_append)
  then have ap: "\<forall>y \<in> set (take (nat k) ys). \<forall>x \<in> set (drop (nat k) ys). snd x \<le> snd y"
    by (auto simp: sorted_append)
  show "\<forall>x \<in> set sc - set ranked. \<forall>y \<in> set ranked. snd x \<le> snd y"
  proof (intro ballI)
    fix x y assume x: "x \<in> set sc - set ranked" and y: "y \<in> set ranked"
    have "set ys = set (take (nat k) ys) \<union> set (drop (nat k) ys)"
      by (metis append_take_drop_id set_append)
    then have "x \<in> set (drop (nat k) ys)" using x sy r by auto
    then show "snd x \<le> snd y" using ap y r by auto
  qed
qed

lemma mapE_resolve:
  "\<forall>(d, s) \<in> set xs. 0 \<le> d \<and> d < int (length dmap) \<Longrightarrow>
   mapE (\<lambda>(doc_id, score). bindE (IdMap_get_str dmap doc_id) (\<lambda>path. Inr (score, path))) xs =
   Inr (map (\<lambda>(d, s). (s, dmap ! nat d)) xs)"
  by (induction xs) (auto simp: IdMap_get_str_def)

lemma matching_docs_subset: "matching_docs r m0 qs \<subseteq> doc_ids (terms r)"
proof
  fix d assume "d \<in> matching_docs r m0 qs"
  then have "\<exists>q \<in> set qs. d \<in> (case vocab_postings r m0 q of (p, f) \<Rightarrow> fst ` set (zip p f))"
    by (simp add: matching_docs_def)
  then obtain q where q: "d \<in> (case vocab_postings r m0 q of (p, f) \<Rightarrow> fst ` set (zip p f))"
    by (rule bexE)
  obtain p f where "vocab_postings r m0 q = (p, f)" by (cases "vocab_postings r m0 q")
  moreover from this q have "d \<in> fst ` set (zip p f)" by simp
  ultimately have "vocab_postings r m0 q = (p, f)" "d \<in> fst ` set (zip p f)" by simp_all
  then have "d \<in> set p" "p \<noteq> []" by (auto dest: set_zip_leftD)
  then obtain t where "(t, p, f) \<in> set (terms r)"
    using vocab_postings_cases[OF \<open>vocab_postings r m0 q = (p, f)\<close>] by auto
  then show "d \<in> doc_ids (terms r)" using \<open>d \<in> set p\<close> by (auto simp: doc_ids_def)
qed

lemma dict_get_entry: "distinct (map fst sc) \<Longrightarrow> (d, s) \<in> set sc \<Longrightarrow> dict_get sc d dflt = s"
  by (simp add: dict_get_def)

lemma in_collection_postings: "in_collection r m0 term \<longleftrightarrow> fst (vocab_postings r m0 term) \<noteq> []"
  by (simp add: in_collection_def vocab_postings_def split: option.splits)

lemma not_in_map_not_in_collection: "term \<notin> set m0 \<Longrightarrow> \<not> in_collection r m0 term"
  by (simp add: in_collection_def first_index_None[THEN iffD2])

lemma pure_filter_collection:
  "pure_loop inner r m0 N qs sc = pure_loop inner r m0 N (filter (in_collection r m0) qs) sc"
proof (induction qs arbitrary: sc)
  case Nil
  then show ?case by simp
next
  case (Cons q qs)
  obtain p f where v: "vocab_postings r m0 q = (p, f)" by (cases "vocab_postings r m0 q")
  show ?case
  proof (cases "in_collection r m0 q")
    case True
    then show ?thesis using Cons.IH by (simp split: prod.splits sum.splits)
  next
    case False
    then have "p = []" using v by (simp add: in_collection_postings)
    then show ?thesis using False Cons.IH by (simp add: v)
  qed
qed

lemma pure_none_in_collection:
  "\<forall>t \<in> set qs. \<not> in_collection r m0 t \<Longrightarrow> pure_loop inner r m0 N qs sc = Inr sc"
proof -
  assume "\<forall>t \<in> set qs. \<not> in_collection r m0 t"
  then have "filter (in_collection r m0) qs = []" by (simp add: filter_empty_conv)
  then show ?thesis using pure_filter_collection[of inner r m0 N qs sc] by simp
qed

lemma in_collection_extend:
  assumes "known_terms r m0"
  shows "in_collection r (m0 @ new) t = in_collection r m0 t"
proof (cases "first_index m0 t")
  case None
  show ?thesis
  proof (cases "first_index new t")
    case n: None
    then show ?thesis using None by (simp add: in_collection_def first_index_append)
  next
    case (Some j)
    have "get_postings_list r (int (length m0 + j)) = ([], [])"
      by (rule get_postings_list_unknown[OF assms]) simp
    then show ?thesis using None Some by (simp add: in_collection_def first_index_append)
  qed
next
  case (Some i)
  then show ?thesis by (simp add: in_collection_def first_index_append)
qed

lemma loop_keeps_collection:
  assumes "known_terms r m"
  shows "in_collection r (snd (terms_loop inner r N qs m sc)) = in_collection r m \<and>
         known_terms r (snd (terms_loop inner r N qs m sc))"
proof -
  from loop_frame[of inner r N qs m sc] obtain new where
    n: "snd (terms_loop inner r N qs m sc) = m @ new" by blast
  have "known_terms r (m @ new)" using assms by (auto simp: known_terms_def)
  then show ?thesis using in_collection_extend[OF assms, of new] n by auto
qed

section \<open>The claims\<close>

subsection \<open>Claims about the codecs\<close>

text \<open>
  C1 (as amended). With an item size \<open>w > 0\<close>: StandardPostings gives back every list of
  integers that fit an array item (\<open>0 \<le> x < 256 ^ w\<close>), and VBEPostings gives back every
  non-decreasing list of non-negative integers below \<open>2 ^ 63\<close>. In both cases \<open>encode\<close> and
  \<open>decode\<close> raise nothing.
\<close>

theorem codec_roundtrip:
  assumes "0 < w"
  shows "((\<forall>x \<in> set L. 0 \<le> x \<and> x < 256 ^ w) \<longrightarrow> Standard_roundtrip w L = Inr L) \<and>
         (sorted L \<and> (\<forall>x \<in> set L. 0 \<le> x \<and> x < 2 ^ 63) \<longrightarrow> VBE_roundtrip w L = Inr L)"
  using assms by (simp add: Standard_roundtrip_ok VBE_roundtrip_sorted)

theorem codec_roundtrip_witness:
  "Standard_roundtrip 8 [34, 67, 89, 454, 2345738] = Inr [34, 67, 89, 454, 2345738] \<and>
   VBE_roundtrip 8 [34, 67, 89, 454, 2345738] = Inr [34, 67, 89, 454, 2345738]"
  using codec_roundtrip [of 8 "[34, 67, 89, 454, 2345738]"] by simp

text \<open>
  C1 as stated fails: the gap of a descending pair is negative and \<open>vb_encode_number\<close> keeps
  only its residue modulo 128, so \<open>[5, 3]\<close> comes back as \<open>[5, 131]\<close>; and an integer that does
  not fit the array item makes \<open>StandardPostings.encode\<close> raise OverflowError.
\<close>

theorem codec_roundtrip_counterexample:
  "VBE_roundtrip 8 [5, 3] = Inr [5, 131] \<and> VBE_roundtrip 8 [5, 3] \<noteq> Inr [5, 3] \<and>
   Standard_roundtrip 8 [2 ^ 64] = Inl OverflowError"
  by code_simp

text \<open>
  C2. The claim asks for one byte per base-128 digit. \<open>vb_encode\<close> writes one array item of
  \<open>w\<close> bytes per digit instead: the single digit of 5 takes 8 bytes (4 where the item has 4).
\<close>

theorem vb_encode_word_per_digit:
  "vb_encode 8 [5] = Inr [133, 0, 0, 0, 0, 0, 0, 0] \<and> vb_encode 4 [5] = Inr [133, 0, 0, 0]"
  by code_simp

text \<open>
  C10. With an item of at least two bytes, \<open>decode_tf (encode_tf L)\<close> gives back a list \<open>L\<close> of
  non-negative integers exactly when every element is below 128.
\<close>

theorem VBE_tf_roundtrip_iff:
  assumes "2 \<le> w" "\<forall>x \<in> set L. 0 \<le> x"
  shows "VBE_roundtrip_tf w L = Inr L \<longleftrightarrow> (\<forall>x \<in> set L. x < 128)"
proof -
  have w: "0 < w" using assms(1) by simp
  have "map (misread w) L = L \<longleftrightarrow> (\<forall>x \<in> set L. misread w x = x)"
    by (simp add: map_idI map_eq_conv[where g = id, simplified] list.map_ident_strong) 
  also have "\<dots> \<longleftrightarrow> (\<forall>x \<in> set L. x < 128)"
  proof (intro ball_cong refl)
    fix x assume "x \<in> set L"
    then have "0 \<le> x" using assms(2) by simp
    then show "misread w x = x \<longleftrightarrow> x < 128"
      using misread_big[OF assms(1), of x] by (cases "x < 128") (simp_all add: misread_small)
  qed
  finally show ?thesis by (simp add: roundtrip_tf_eq[OF w])
qed

theorem VBE_tf_roundtrip_iff_witness:
  "VBE_roundtrip_tf 8 [12, 10, 3, 4, 1] = Inr [12, 10, 3, 4, 1] \<and>
   VBE_roundtrip_tf 8 [12, 128] \<noteq> Inr [12, 128]"
  using VBE_tf_roundtrip_iff [of 8 "[12, 10, 3, 4, 1]"] VBE_tf_roundtrip_iff [of 8 "[12, 128]"]
  by simp

subsection \<open>Claims about block inversion and the merge\<close>

text \<open>
  C6. Whatever the list of (termId, docId) pairs, \<open>write_to_index\<close> leaves the earlier entries
  of the writer alone and appends each distinct termId exactly once, in strictly ascending
  order; the postings list appended for a term is strictly ascending and holds exactly the
  docIds paired with the term, and the tf list has one entry per docId, the number of
  occurrences of the pair in the input, which is at least 1.
\<close>

theorem write_to_index_inverts:
  fixes td_pairs :: "(int \<times> int) list" and index :: writer
  defines "out \<equiv> drop (length index) (write_to_index td_pairs index)"
  shows "take (length index) (write_to_index td_pairs index) = index \<and>
         out = spec_inverted td_pairs \<and>
         sorted_wrt (<) (map fst out) \<and>
         set (map fst out) = fst ` set td_pairs \<and>
         (\<forall>(t, postings_list, tf_list) \<in> set out.
            sorted_wrt (<) postings_list \<and>
            set postings_list = {d. (t, d) \<in> set td_pairs} \<and>
            length tf_list = length postings_list \<and>
            (\<forall>i < length postings_list.
               tf_list ! i = int (count_list td_pairs (t, postings_list ! i)) \<and>
               1 \<le> tf_list ! i))"
proof -
  have out: "out = spec_inverted td_pairs" by (simp add: out_def write_to_index_eq)
  have terms: "map fst (spec_inverted td_pairs) = sort (remdups (map fst td_pairs))"
    by (simp add: spec_inverted_def comp_def)
  have ent: "sorted_wrt (<) ps \<and> set ps = {d. (t, d) \<in> set td_pairs} \<and>
       length tfs = length ps \<and>
       (\<forall>i < length ps. tfs ! i = int (count_list td_pairs (t, ps ! i)) \<and> 1 \<le> tfs ! i)"
    if "(t, ps, tfs) \<in> set (spec_inverted td_pairs)" for t ps tfs
  proof -
    from that have ps: "ps = spec_postings td_pairs t"
      and tfs: "tfs = map (\<lambda>d. int (count_list td_pairs (t, d))) ps"
      by (auto simp: spec_inverted_def)
    have s: "set ps = {d. (t, d) \<in> set td_pairs}"
      by (auto simp: ps spec_postings_def image_iff)
    have "1 \<le> int (count_list td_pairs (t, ps ! i))" if "i < length ps" for i
    proof -
      have "ps ! i \<in> set ps" using that by simp
      then have "(t, ps ! i) \<in> set td_pairs" using s by simp
      then show ?thesis using count_list_pos[of "(t, ps ! i)" td_pairs] by simp
    qed
    then show ?thesis using s by (simp add: tfs) (simp add: ps spec_postings_def sorted_wrt_less_sort_remdups)
  qed
  have "take (length index) (write_to_index td_pairs index) = index"
    by (simp add: write_to_index_eq)
  moreover have "sorted_wrt (<) (map fst out)"
    by (simp only: out terms sorted_wrt_less_sort_remdups)
  moreover have "set (map fst out) = fst ` set td_pairs"
    by (simp only: out terms) simp
  ultimately show ?thesis
    using ent out by blast
qed

theorem write_to_index_inverts_witness:
  "write_to_index [(2, 1), (1, 1), (2, 1), (2, 0)] [] = [(1, [1], [1]), (2, [0, 1], [1, 2])]"
proof -
  have "spec_inverted [(2, 1), (1, 1), (2, 1), (2, 0)] = [(1, [1], [1]), (2, [0, 1], [1, 2])]"
    by code_simp
  then show ?thesis
    using write_to_index_inverts [of "[]" "[(2, 1), (1, 1), (2, 1), (2, 0)]"] by simp
qed

text \<open>
  C5. For two intermediate indices (strictly ascending termIds; per term strictly ascending
  docIds with one tf each) over disjoint sets of docIds, \<open>merge_index\<close> leaves the earlier
  entries of the writer alone and writes each distinct termId exactly once, in strictly
  ascending order. A term of both inputs is written with the ascending union of its two
  postings lists, every (docId, tf) pair of either input kept; a term of one input is
  written with its postings and tf lists unchanged. The call raises exactly when both
  inputs are empty.
\<close>

theorem merge_index_two_indices:
  fixes A B :: "triple list" and w :: writer
  defines "out \<equiv> drop (length w) (snd (merge_index [A, B] w))"
  assumes "intermediate_index A" "intermediate_index B" "doc_ids A \<inter> doc_ids B = {}"
  shows "take (length w) (snd (merge_index [A, B] w)) = w \<and>
         (fst (merge_index [A, B] w) = None \<longleftrightarrow> A \<noteq> [] \<or> B \<noteq> []) \<and>
         out = spec_merged A B \<and>
         sorted_wrt (<) (map fst out) \<and>
         set (map fst out) = fst ` set A \<union> fst ` set B \<and>
         (\<forall>(t, pa, fa) \<in> set A. \<forall>(t', pb, fb) \<in> set B. t = t' \<longrightarrow>
            (\<exists>f. (t, sort (pa @ pb), f) \<in> set out \<and>
                 sorted_wrt (<) (sort (pa @ pb)) \<and>
                 set (sort (pa @ pb)) = set pa \<union> set pb \<and>
                 length f = length (sort (pa @ pb)) \<and>
                 set (zip (sort (pa @ pb)) f) = set (zip pa fa) \<union> set (zip pb fb))) \<and>
         (\<forall>x \<in> set A. fst x \<notin> fst ` set B \<longrightarrow> x \<in> set out) \<and>
         (\<forall>y \<in> set B. fst y \<notin> fst ` set A \<longrightarrow> y \<in> set out)"
proof -
  have sA: "sorted_wrt (<) (map fst A)" and sB: "sorted_wrt (<) (map fst B)"
    using assms by (simp_all add: intermediate_index_def)
  have eq: "merge_index [A, B] w =
     (if A = [] \<and> B = [] then (Some StopIteration, w) else (None, w @ spec_merged A B))"
    by (rule merge_index_two_eq[OF sA sB])
  have out: "out = spec_merged A B"
    unfolding out_def eq by (cases "A = [] \<and> B = []") simp_all
  have c1: "take (length w) (snd (merge_index [A, B] w)) = w" by (simp add: eq)
  have c2: "fst (merge_index [A, B] w) = None \<longleftrightarrow> A \<noteq> [] \<or> B \<noteq> []" by (simp add: eq)
  have c3: "sorted_wrt (<) (map fst out)" unfolding out by (rule sorted_spec_merged[OF sA sB])
  have c4: "set (map fst out) = fst ` set A \<union> fst ` set B"
    unfolding out by (simp add: keys_spec_merged)
  have c5: "\<exists>f. (t, sort (pa @ pb), f) \<in> set out \<and>
                 sorted_wrt (<) (sort (pa @ pb)) \<and>
                 set (sort (pa @ pb)) = set pa \<union> set pb \<and>
                 length f = length (sort (pa @ pb)) \<and>
                 set (zip (sort (pa @ pb)) f) = set (zip pa fa) \<union> set (zip pb fb)"
    if a: "(t, pa, fa) \<in> set A" and b: "(t, pb, fb) \<in> set B" for t pa fa pb fb
  proof -
    have wa: "sorted_wrt (<) pa" "length fa = length pa"
      using assms(2) a by (auto simp: intermediate_index_def)
    have wb: "sorted_wrt (<) pb" "length fb = length pb"
      using assms(3) b by (auto simp: intermediate_index_def)
    have "set pa \<subseteq> doc_ids A" "set pb \<subseteq> doc_ids B"
      using a b by (auto simp: doc_ids_def)
    then have dj: "set pa \<inter> set pb = {}" using assms(4) by auto
    obtain f where f: "combine (t, pa, fa) (t, pb, fb) = (t, sort (pa @ pb), f)"
      "length f = length pa + length pb"
      "set (zip (sort (pa @ pb)) f) = set (zip pa fa) \<union> set (zip pb fb)"
      using combine_disjoint[OF wa(1,2) wb(1,2) dj] by blast
    have "combine (t, pa, fa) (t, pb, fb) \<in> set out"
      unfolding out using spec_merged_both[OF sA sB a b] by simp
    moreover have "distinct (pa @ pb)" using wa(1) wb(1) dj by (simp add: strict_sorted_iff)
    then have "sorted_wrt (<) (sort (pa @ pb))" by (simp add: strict_sorted_iff)
    ultimately show ?thesis using f by (intro exI[of _ f]) simp
  qed
  have c6: "\<forall>x \<in> set A. fst x \<notin> fst ` set B \<longrightarrow> x \<in> set out"
    unfolding out using spec_merged_left by blast
  have c7: "\<forall>y \<in> set B. fst y \<notin> fst ` set A \<longrightarrow> y \<in> set out"
    unfolding out using spec_merged_right by blast
  from c5 have c5': "\<forall>(t, pa, fa) \<in> set A. \<forall>(t', pb, fb) \<in> set B. t = t' \<longrightarrow>
            (\<exists>f. (t, sort (pa @ pb), f) \<in> set out \<and>
                 sorted_wrt (<) (sort (pa @ pb)) \<and>
                 set (sort (pa @ pb)) = set pa \<union> set pb \<and>
                 length f = length (sort (pa @ pb)) \<and>
                 set (zip (sort (pa @ pb)) f) = set (zip pa fa) \<union> set (zip pb fb))"
    by blast
  show ?thesis using c1 c2 out c3 c4 c5' c6 c7 by blast
qed

theorem merge_index_two_indices_witness:
  "snd (merge_index [[(1, [0, 2], [3, 1]), (4, [2], [7])], [(1, [5], [2]), (3, [6], [1])]] []) =
     [(1, [0, 2, 5], [3, 1, 2]), (3, [6], [1]), (4, [2], [7])]"
proof -
  have a: "intermediate_index [(1, [0, 2], [3, 1]), (4, [2], [7])]"
    by (simp add: intermediate_index_def)
  have b: "intermediate_index [(1, [5], [2]), (3, [6], [1])]"
    by (simp add: intermediate_index_def)
  have d: "doc_ids [(1, [0, 2], [3, 1]), (4, [2], [7])] \<inter> doc_ids [(1, [5], [2]), (3, [6], [1])] = {}"
    by (simp add: doc_ids_def)
  have "spec_merged [(1, [0, 2], [3, 1]), (4, [2], [7])] [(1, [5], [2]), (3, [6], [1])] =
     [(1, [0, 2, 5], [3, 1, 2]), (3, [6], [1]), (4, [2], [7])]"
    by (simp add: combine_def)
  then show ?thesis using merge_index_two_indices[OF a b d, of "[]"] by simp
qed

text \<open>
  C9. When no reader yields a triple (no readers, or only empty ones), \<open>merge_index\<close> raises
  StopIteration and the destination writer is as it was.
\<close>

theorem merge_index_nothing_to_merge:
  "\<forall>r \<in> set indices. r = [] \<Longrightarrow>
   merge_index indices merged_index = (Some StopIteration, merged_index)"
  by (simp add: merge_index_def heapq_merge_all_empty)

theorem merge_index_nothing_to_merge_witness:
  "merge_index [] [(0, [1], [1])] = (Some StopIteration, [(0, [1], [1])]) \<and>
   merge_index [[], []] [(0, [1], [1])] = (Some StopIteration, [(0, [1], [1])])"
  using merge_index_nothing_to_merge[of "[]" "[(0, [1], [1])]"]
    merge_index_nothing_to_merge[of "[[], []]" "[(0, [1], [1])]"] by simp

subsection \<open>Claims about retrieval\<close>

text \<open>
  C3. When every term frequency stored in the index is at least 1, \<open>retrieve_bm25\<close> returns
  what \<open>retrieve_tfidf\<close> returns, result and id maps alike, whatever the query, \<open>k\<close>, \<open>k1\<close> and
  \<open>b\<close>: its body uses neither \<open>k1\<close> nor \<open>b\<close> nor the document lengths.
\<close>

theorem retrieve_bm25_is_tfidf:
  assumes "\<forall>(t, postings_list, tf_list) \<in> set (terms merged_index). \<forall>tf \<in> set tf_list. 1 \<le> tf"
  shows "retrieve_bm25 pre merged_index self query k k1 b =
         retrieve_tfidf pre merged_index self query k"
  by (simp add: retrieve_bm25_def retrieve_tfidf_def bm25_terms_eq[OF assms])

theorem retrieve_bm25_is_tfidf_witness:
  "retrieve_bm25 (\<lambda>q. [q])
     \<lparr>terms = [(0, [0], [1]), (1, [0, 1], [1, 2]), (2, [1], [1])], doc_length = [(0, 2), (1, 3)]\<rparr>
     \<lparr>term_id_map = [''cat'', ''dog'', ''fish''], doc_id_map = [''A'', ''B'']\<rparr> ''fish'' 10 1.2 0.75 =
   (Inr [(log 10 2, ''B'')],
     \<lparr>term_id_map = [''cat'', ''dog'', ''fish''], doc_id_map = [''A'', ''B'']\<rparr>)"
proof -
  have "retrieve_tfidf (\<lambda>q. [q])
     \<lparr>terms = [(0, [0], [1]), (1, [0, 1], [1, 2]), (2, [1], [1])], doc_length = [(0, 2), (1, 3)]\<rparr>
     \<lparr>term_id_map = [''cat'', ''dog'', ''fish''], doc_id_map = [''A'', ''B'']\<rparr> ''fish'' 10 =
   (Inr [(log 10 2, ''B'')],
     \<lparr>term_id_map = [''cat'', ''dog'', ''fish''], doc_id_map = [''A'', ''B'']\<rparr>)"
    by (simp add: eval_defs)
  then show ?thesis
    using retrieve_bm25_is_tfidf [where
      merged_index = "\<lparr>terms = [(0, [0], [1]), (1, [0, 1], [1, 2]), (2, [1], [1])], doc_length = [(0, 2), (1, 3)]\<rparr>"
      and pre = "\<lambda>q. [q]"
      and self = "\<lparr>term_id_map = [''cat'', ''dog'', ''fish''], doc_id_map = [''A'', ''B'']\<rparr>"
      and query = "''fish''" and k = 10 and ?k1.0 = "1.2" and b = "0.75"]
    by simp
qed

text \<open>
  C7. Let every termId of the index be one that the term map has assigned. A query term is
  outside the indexed collection when the term map does not hold it, or holds it (an
  earlier query may have registered it) while the index has no postings under its id. A
  query without terms, or with such terms only, makes \<open>retrieve_tfidf\<close> and \<open>retrieve_bm25\<close>
  return the empty list without raising; and any query gives the result that the same
  query without these terms gives, so such a term neither raises nor changes a score. A
  retrieval call changes neither which terms are in the collection nor the assumption on
  the termIds, so all of this holds for every later query as well.
\<close>

theorem retrieve_out_of_vocabulary:
  assumes "\<forall>t \<in> fst ` set (terms merged_index). 0 \<le> t \<and> t < int (length (term_id_map self))"
  shows "(\<forall>t. t \<notin> set (term_id_map self) \<longrightarrow>
            \<not> in_collection merged_index (term_id_map self) t) \<and>
         in_collection merged_index
           (term_id_map (snd (retrieve_tfidf pre merged_index self query k))) =
           in_collection merged_index (term_id_map self) \<and>
         in_collection merged_index
           (term_id_map (snd (retrieve_bm25 pre merged_index self query k k1 b))) =
           in_collection merged_index (term_id_map self) \<and>
         (\<forall>t \<in> fst ` set (terms merged_index). 0 \<le> t \<and>
            t < int (length (term_id_map (snd (retrieve_tfidf pre merged_index self query k)))) \<and>
            t < int (length (term_id_map
                  (snd (retrieve_bm25 pre merged_index self query k k1 b))))) \<and>
         ((\<forall>t \<in> set (pre query). \<not> in_collection merged_index (term_id_map self) t) \<longrightarrow>
            fst (retrieve_tfidf pre merged_index self query k) = Inr [] \<and>
            fst (retrieve_bm25 pre merged_index self query k k1 b) = Inr []) \<and>
         fst (retrieve_tfidf pre merged_index self query k) =
           fst (retrieve_tfidf
                  (\<lambda>q. filter (in_collection merged_index (term_id_map self)) (pre q))
                  merged_index self query k) \<and>
         fst (retrieve_bm25 pre merged_index self query k k1 b) =
           fst (retrieve_bm25
                  (\<lambda>q. filter (in_collection merged_index (term_id_map self)) (pre q))
                  merged_index self query k k1 b)"
proof -
  have kn: "known_terms merged_index (term_id_map self)"
    using assms by (simp add: known_terms_def)
  have z: "\<forall>t. t \<notin> set (term_id_map self) \<longrightarrow>
            \<not> in_collection merged_index (term_id_map self) t"
    by (simp add: not_in_map_not_in_collection)
  have a: "fst (retrieve_tfidf pre merged_index self query k) = Inr [] \<and>
           fst (retrieve_bm25 pre merged_index self query k k1 b) = Inr []"
    if "\<forall>t \<in> set (pre query). \<not> in_collection merged_index (term_id_map self) t"
    using that
    by (simp add: retrieve_tfidf_fst[OF kn] retrieve_bm25_fst[OF kn] pure_none_in_collection
        top_k_empty)
  have b: "fst (retrieve_tfidf pre merged_index self query k) =
           fst (retrieve_tfidf
                  (\<lambda>q. filter (in_collection merged_index (term_id_map self)) (pre q))
                  merged_index self query k)"
    unfolding retrieve_tfidf_fst[OF kn]
    by (subst pure_filter_collection) simp
  have c: "fst (retrieve_bm25 pre merged_index self query k k1 b) =
           fst (retrieve_bm25
                  (\<lambda>q. filter (in_collection merged_index (term_id_map self)) (pre q))
                  merged_index self query k k1 b)"
    unfolding retrieve_bm25_fst[OF kn]
    by (subst pure_filter_collection) simp
  note l1 = loop_keeps_collection[OF kn, of tfidf_inner "length (doc_length merged_index)"
      "pre query" "[]"]
  note l2 = loop_keeps_collection[OF kn, of bm25_postings "length (doc_length merged_index)"
      "pre query" "[]"]
  have d: "in_collection merged_index
           (term_id_map (snd (retrieve_tfidf pre merged_index self query k))) =
           in_collection merged_index (term_id_map self)"
    using l1 by (simp add: retrieve_tfidf_snd)
  have e: "in_collection merged_index
           (term_id_map (snd (retrieve_bm25 pre merged_index self query k k1 b))) =
           in_collection merged_index (term_id_map self)"
    using l2 by (simp add: retrieve_bm25_snd)
  have f: "\<forall>t \<in> fst ` set (terms merged_index). 0 \<le> t \<and>
            t < int (length (term_id_map (snd (retrieve_tfidf pre merged_index self query k)))) \<and>
            t < int (length (term_id_map
                  (snd (retrieve_bm25 pre merged_index self query k k1 b))))"
    using l1 l2 by (simp add: retrieve_tfidf_snd retrieve_bm25_snd known_terms_def)
  show ?thesis using z d e f a b c by blast
qed

theorem retrieve_out_of_vocabulary_witness:
  "fst (retrieve_tfidf (\<lambda>q. [q, ''plugh''])
     \<lparr>terms = [(0, [0], [1]), (1, [0, 1], [1, 2]), (2, [1], [1])], doc_length = [(0, 2), (1, 3)]\<rparr>
     \<lparr>term_id_map = [''cat'', ''dog'', ''fish'', ''xyzzy''], doc_id_map = [''A'', ''B'']\<rparr>
     ''xyzzy'' 10) = Inr [] \<and>
   fst (retrieve_bm25 (\<lambda>q. [q, ''plugh''])
     \<lparr>terms = [(0, [0], [1]), (1, [0, 1], [1, 2]), (2, [1], [1])], doc_length = [(0, 2), (1, 3)]\<rparr>
     \<lparr>term_id_map = [''cat'', ''dog'', ''fish'', ''xyzzy''], doc_id_map = [''A'', ''B'']\<rparr>
     ''xyzzy'' 10 1.2 0.75) = Inr [] \<and>
   fst (retrieve_tfidf (\<lambda>q. [q])
     \<lparr>terms = [(0, [0], [1]), (1, [0, 1], [1, 2]), (2, [1], [1])], doc_length = [(0, 2), (1, 3)]\<rparr>
     (snd (retrieve_tfidf (\<lambda>q. [q])
       \<lparr>terms = [(0, [0], [1]), (1, [0, 1], [1, 2]), (2, [1], [1])], doc_length = [(0, 2), (1, 3)]\<rparr>
       \<lparr>term_id_map = [''cat'', ''dog'', ''fish''], doc_id_map = [''A'', ''B'']\<rparr>
       ''xyzzy'' 10))
     ''xyzzy'' 10) = Inr []"
proof -
  let ?r = "\<lparr>terms = [(0, [0], [1]), (1, [0, 1], [1, 2]), (2, [1], [1])], doc_length = [(0, 2), (1, 3)]\<rparr>"
  let ?reg = "\<lparr>term_id_map = [''cat'', ''dog'', ''fish'', ''xyzzy''], doc_id_map = [''A'', ''B'']\<rparr>"
  let ?init = "\<lparr>term_id_map = [''cat'', ''dog'', ''fish''], doc_id_map = [''A'', ''B'']\<rparr>"
  let ?after = "snd (retrieve_tfidf (\<lambda>q. [q]) ?r ?init ''xyzzy'' 10)"
  have h: "\<forall>t \<in> fst ` set (terms ?r). 0 \<le> t \<and> t < int (length (term_id_map ?reg))" by simp
  have n: "\<forall>t \<in> set ((\<lambda>q. [q, ''plugh'']) ''xyzzy''). \<not> in_collection ?r (term_id_map ?reg) t"
    by (simp add: in_collection_def get_postings_list_def)
  have first: "fst (retrieve_tfidf (\<lambda>q. [q, ''plugh'']) ?r ?reg ''xyzzy'' 10) = Inr [] \<and>
      fst (retrieve_bm25 (\<lambda>q. [q, ''plugh'']) ?r ?reg ''xyzzy'' 10 1.2 0.75) = Inr []"
    using retrieve_out_of_vocabulary [OF h, where pre = "\<lambda>q. [q, ''plugh'']" and query = "''xyzzy''"
        and k = 10 and ?k1.0 = "1.2" and b = "0.75"] n
    by blast
  have h0: "\<forall>t \<in> fst ` set (terms ?r). 0 \<le> t \<and> t < int (length (term_id_map ?init))" by simp
  have n0: "\<not> in_collection ?r (term_id_map ?init) ''xyzzy''"
    by (simp add: in_collection_def)
  note t0 = retrieve_out_of_vocabulary [OF h0, where pre = "\<lambda>q. [q]" and query = "''xyzzy''"
        and k = 10 and ?k1.0 = "1.2" and b = "0.75"]
  have h1: "\<forall>t \<in> fst ` set (terms ?r). 0 \<le> t \<and> t < int (length (term_id_map ?after))"
    using t0 by blast
  have n1: "\<forall>t \<in> set ((\<lambda>q. [q]) ''xyzzy''). \<not> in_collection ?r (term_id_map ?after) t"
    using t0 n0 by simp
  have second: "fst (retrieve_tfidf (\<lambda>q. [q]) ?r ?after ''xyzzy'' 10) = Inr []"
    using retrieve_out_of_vocabulary [OF h1, where pre = "\<lambda>q. [q]" and query = "''xyzzy''"
        and k = 10 and ?k1.0 = "1.2" and b = "0.75"] n1
    by blast
  show ?thesis using first second by blast
qed




text \<open>
  C4 (as amended). Let the index and the id maps be those of one indexing run: every termId
  of the index was assigned by the term map, every document of a postings list has a
  document length and a path in the document map. Then for every query and every
  \<open>k \<ge> 0\<close>, \<open>retrieve_tfidf\<close> returns without raising the pairs (score, path) of \<open>min k n\<close>
  distinct documents out of the \<open>n\<close> documents that occur in the postings of a query term,
  in descending order of score, no document left out scoring higher than one returned.
  The score of a document is the sum, over the query terms found in the vocabulary with
  \<open>df > 0\<close> and over the postings \<open>(docId, tf)\<close> of the document, of
  \<open>log10 (N / df) * (1 + log10 tf)\<close> (0 when \<open>tf\<close> is not positive), \<open>N\<close> being the size of the
  document-length table; the path is the inverse lookup of the docId.
\<close>

theorem retrieve_tfidf_ranking:
  fixes pre :: "string \<Rightarrow> string list" and merged_index :: index_reader
    and self :: BSBIIndex and query :: string and k :: int
  defines "N \<equiv> length (doc_length merged_index)"
  defines "score \<equiv> spec_score merged_index (term_id_map self) N (pre query)"
  defines "matching \<equiv> matching_docs merged_index (term_id_map self) (pre query)"
  assumes "\<forall>t \<in> fst ` set (terms merged_index). 0 \<le> t \<and> t < int (length (term_id_map self))"
    and "\<forall>(t, postings_list, tf_list) \<in> set (terms merged_index).
           set postings_list \<subseteq> fst ` set (doc_length merged_index)"
    and "\<forall>d \<in> doc_ids (terms merged_index). 0 \<le> d \<and> d < int (length (doc_id_map self))"
    and "0 \<le> k"
  shows "\<exists>docs. fst (retrieve_tfidf pre merged_index self query k) =
             Inr (map (\<lambda>d. (score d, doc_id_map self ! nat d)) docs) \<and>
           distinct docs \<and> set docs \<subseteq> matching \<and>
           length docs = min (nat k) (card matching) \<and>
           sorted_wrt (\<lambda>d d'. score d' \<le> score d) docs \<and>
           (\<forall>d \<in> matching - set docs. \<forall>d' \<in> set docs. score d \<le> score d')"
proof -
  have kn: "known_terms merged_index (term_id_map self)"
    using assms(4) by (simp add: known_terms_def)
  have dl: "docs_have_length merged_index" using assms(5) by (simp add: docs_have_length_def)
  have Neq: "N = length (doc_length merged_index)" by (simp add: N_def)
  from pure_scores[OF dl Neq, of "[]" "term_id_map self" "pre query"] obtain sc where
    pl: "pure_loop tfidf_inner merged_index (term_id_map self) N (pre query) [] = Inr sc"
    and dsc: "distinct (map fst sc)"
    and ksc: "set (map fst sc) = matching"
    and gsc: "\<And>d. dict_get sc d 0 = score d"
    by (auto simp: matching_def score_def dict_get_def)
  define ranked where "ranked = slice_to k (sorted_by_score_reverse sc)"
  note rp = ranked_props[OF dsc assms(7), folded ranked_def]
  have ent: "s = score d" if "(d, s) \<in> set ranked" for d s
    using dict_get_entry[OF dsc, of d s 0] that rp(2) gsc by auto
  have inm: "d \<in> matching" if "(d, s) \<in> set ranked" for d s
    using that rp(2) ksc by force
  have ok: "\<forall>(d, s) \<in> set ranked. 0 \<le> d \<and> d < int (length (doc_id_map self))"
    using inm assms(6) matching_docs_subset[of merged_index "term_id_map self" "pre query"]
    unfolding matching_def by blast
  have "fst (retrieve_tfidf pre merged_index self query k) = top_k (doc_id_map self) sc k"
    by (simp add: retrieve_tfidf_fst[OF kn] N_def[symmetric] pl)
  also have "\<dots> = Inr (map (\<lambda>(d, s). (s, doc_id_map self ! nat d)) ranked)"
    unfolding top_k_def Let_def ranked_def[symmetric] by (rule mapE_resolve[OF ok])
  also have "map (\<lambda>(d, s). (s, doc_id_map self ! nat d)) ranked =
             map (\<lambda>d. (score d, doc_id_map self ! nat d)) (map fst ranked)"
    using ent by (auto simp: comp_def)
  finally have res: "fst (retrieve_tfidf pre merged_index self query k) =
             Inr (map (\<lambda>d. (score d, doc_id_map self ! nat d)) (map fst ranked))" .
  have sub: "set (map fst ranked) \<subseteq> matching" using inm by auto
  have "card matching = length sc" using dsc ksc by (metis distinct_card length_map)
  then have len: "length (map fst ranked) = min (nat k) (card matching)" using rp(3) by simp
  have srt: "sorted_wrt (\<lambda>d d'. score d' \<le> score d) (map fst ranked)"
  proof -
    have "sorted_wrt (\<lambda>x y. score (fst y) \<le> score (fst x)) ranked"
    proof (rule sorted_wrt_mono_rel[OF _ rp(4)])
      fix x y assume "x \<in> set ranked" "y \<in> set ranked" "snd y \<le> snd x"
      then show "score (fst y) \<le> score (fst x)"
        using ent[of "fst x" "snd x"] ent[of "fst y" "snd y"] by simp
    qed
    then show ?thesis by (simp add: sorted_wrt_map)
  qed
  have top: "\<forall>d \<in> matching - set (map fst ranked). \<forall>d' \<in> set (map fst ranked). score d \<le> score d'"
  proof (intro ballI)
    fix d d' assume d: "d \<in> matching - set (map fst ranked)" and d': "d' \<in> set (map fst ranked)"
    from d obtain s where s: "(d, s) \<in> set sc" using ksc by force
    have "(d, s) \<notin> set ranked" using d by force
    moreover obtain s' where s': "(d', s') \<in> set ranked" using d' by auto
    ultimately have "s \<le> s'" using rp(5) s by force
    moreover have "s = score d" using dict_get_entry[OF dsc s, of 0] gsc by simp
    moreover have "s' = score d'" using ent[OF s'] .
    ultimately show "score d \<le> score d'" by simp
  qed
  show ?thesis using res rp(1) sub len srt top by blast
qed

theorem retrieve_tfidf_ranking_witness:
  "\<exists>docs. fst (retrieve_tfidf (\<lambda>q. [q])
       \<lparr>terms = [(0, [0], [1]), (1, [0, 1], [1, 2]), (2, [1], [1])], doc_length = [(0, 2), (1, 3)]\<rparr>
       \<lparr>term_id_map = [''cat'', ''dog'', ''fish''], doc_id_map = [''A'', ''B'']\<rparr> ''dog'' 1) =
     Inr (map (\<lambda>d. (spec_score
         \<lparr>terms = [(0, [0], [1]), (1, [0, 1], [1, 2]), (2, [1], [1])], doc_length = [(0, 2), (1, 3)]\<rparr>
         [''cat'', ''dog'', ''fish''] 2 [''dog''] d, [''A'', ''B''] ! nat d)) docs) \<and>
     length docs = 1"
proof -
  let ?r = "\<lparr>terms = [(0, [0], [1]), (1, [0, 1], [1, 2]), (2, [1], [1])], doc_length = [(0, 2), (1, 3)]\<rparr>"
  let ?s = "\<lparr>term_id_map = [''cat'', ''dog'', ''fish''], doc_id_map = [''A'', ''B'']\<rparr>"
  have h1: "\<forall>t \<in> fst ` set (terms ?r). 0 \<le> t \<and> t < int (length (term_id_map ?s))" by simp
  have h2: "\<forall>(t, postings_list, tf_list) \<in> set (terms ?r).
           set postings_list \<subseteq> fst ` set (doc_length ?r)" by simp
  have h3: "\<forall>d \<in> doc_ids (terms ?r). 0 \<le> d \<and> d < int (length (doc_id_map ?s))"
    by (simp add: doc_ids_def)
  have h4: "(0::int) \<le> 1" by simp
  have m: "matching_docs ?r (term_id_map ?s) ((\<lambda>q. [q]) ''dog'') = {0, 1}"
    by (auto simp: matching_docs_def vocab_postings_def get_postings_list_def)
  from retrieve_tfidf_ranking[OF h1 h2 h3 h4, of "\<lambda>q. [q]" "''dog''"]
  obtain docs where
    "fst (retrieve_tfidf (\<lambda>q. [q]) ?r ?s ''dog'' 1) =
       Inr (map (\<lambda>d. (spec_score ?r (term_id_map ?s) (length (doc_length ?r)) ((\<lambda>q. [q]) ''dog'') d,
                      doc_id_map ?s ! nat d)) docs)"
    "length docs = min (nat 1) (card (matching_docs ?r (term_id_map ?s) ((\<lambda>q. [q]) ''dog'')))"
    by blast
  then show ?thesis unfolding m by (intro exI[of _ docs]) (simp add: numeral_2_eq_2)
qed

text \<open>
  C4 as stated fails for a negative \<open>k\<close>: \<open>ranked_docs[:k]\<close> then drops the last \<open>-k\<close>
  documents, and with \<open>k = -1\<close> and two matching documents one pair is returned.
\<close>

theorem retrieve_tfidf_negative_k_counterexample:
  "fst (retrieve_tfidf (\<lambda>q. [q])
     \<lparr>terms = [(0, [0], [1]), (1, [0, 1], [1, 2]), (2, [1], [1])], doc_length = [(0, 2), (1, 3)]\<rparr>
     \<lparr>term_id_map = [''cat'', ''dog'', ''fish''], doc_id_map = [''A'', ''B'']\<rparr> ''dog'' (- 1)) =
   Inr [(0, ''A'')]"
  by (simp add: eval_defs)

end
